theory Spec2Isabelle
  imports Complex_Main "HOL-Library.Word"
begin

section \<open>Numbers, bytes and colours (services/gifService.ts)\<close>

text \<open>
  JavaScript numbers are IEEE 754 doubles.  Where the program only holds integers (channel
  values, squared differences, frame indices) they are modelled as integers.  Where it
  does arithmetic on fractions (the HSL conversions, the feathering) a double is the real
  number it denotes, and every operation yields the exact result rounded to the nearest
  double, a tie going to the even significand: \<open>rd\<close> below.  The pixel buffer is a
  \<open>Uint8ClampedArray\<close>: a list of bytes, four per pixel, in the order red, green,
  blue, alpha.
\<close>

type_synonym byte = "8 word"

text \<open>Reading an element of the pixel buffer yields its value as a number.\<close>

definition byteVal :: "byte \<Rightarrow> int" where
  "byteVal w = int (unat w)"

text \<open>
  Writing a number into a \<open>Uint8ClampedArray\<close> (the conversion \<open>ToUint8Clamp\<close>):
  clamp to 0..255 and round to the nearest integer, a tie going to the even neighbour.
\<close>

definition toUint8Clamp :: "real \<Rightarrow> byte" where
  "toUint8Clamp x =
     (if x \<le> 0 then 0
      else if 255 \<le> x then 255
      else let f = \<lfloor>x\<rfloor> in
        if of_int f + 1 / 2 < x then of_int (f + 1)
        else if x < of_int f + 1 / 2 then of_int f
        else if even f then of_int f else of_int (f + 1))"

text \<open>
  Rounding to the nearest double.  A number \<open>x\<close> with \<open>2^e \<le> |x| < 2^(e+1)\<close> lies
  between multiples of \<open>2^(e-52)\<close>, the doubles of its binade; it goes to the nearest,
  a tie to the even multiple.  Overflow and subnormal numbers are left out: the numbers
  of this program are quotients, sums and products of a few values between 1/255 and
  255, far from both.
\<close>

definition roundHalfEven :: "real \<Rightarrow> int" where
  "roundHalfEven x =
     (let f = \<lfloor>x\<rfloor> in
      if of_int f + 1 / 2 < x then f + 1
      else if x < of_int f + 1 / 2 then f
      else if even f then f else f + 1)"

definition rd :: "real \<Rightarrow> real" where
  "rd x =
     (if x = 0 then 0
      else let e = \<lfloor>log 2 \<bar>x\<bar>\<rfloor>; u = 2 powi (e - 52)
           in sgn x * of_int (roundHalfEven (\<bar>x\<bar> / u)) * u)"

text \<open>\<open>Math.round\<close>: the nearest integer, a tie going up.\<close>

definition mathRound :: "real \<Rightarrow> int" where
  "mathRound x = \<lfloor>x + 1 / 2\<rfloor>"

record rgb =
  rgb_r :: int
  rgb_g :: int
  rgb_b :: int

text \<open>
  \<open>rgbToHsl\<close>, lines 15-33, each operation rounded.  The \<open>switch (max)\<close> tries r,
  then g, then b.
\<close>

definition rgbToHsl :: "real \<Rightarrow> real \<Rightarrow> real \<Rightarrow> real \<times> real \<times> real" where
  "rgbToHsl r0 g0 b0 =
     (let r = rd (r0 / 255); g = rd (g0 / 255); b = rd (b0 / 255);
          mx = max (max r g) b; mn = min (min r g) b;
          l = rd (rd (mx + mn) / 2)
      in if mx \<noteq> mn then
           (let d = rd (mx - mn);
                s = (if l > 1 / 2 then rd (d / rd (rd (2 - mx) - mn)) else rd (d / rd (mx + mn)));
                h = (if mx = r then rd (rd (rd (g - b) / d) + (if g < b then 6 else 0))
                     else if mx = g then rd (rd (rd (b - r) / d) + 2)
                     else if mx = b then rd (rd (rd (r - g) / d) + 4)
                     else 0)
            in (rd (h / 6), s, l))
         else (0, 0, l))"

text \<open>
  \<open>hue2rgb\<close>, the local helper of \<open>hslToRgb\<close>, lines 43-50.  The literals
  \<open>1 / 6\<close> and \<open>2 / 3\<close> are themselves rounded quotients; \<open>1 / 2\<close> is exact.
\<close>

definition hue2rgb :: "real \<Rightarrow> real \<Rightarrow> real \<Rightarrow> real" where
  "hue2rgb p q t0 =
     (let t1 = (if t0 < 0 then rd (t0 + 1) else t0);
          t = (if t1 > 1 then rd (t1 - 1) else t1)
      in if t < rd (1 / 6) then rd (p + rd (rd (rd (q - p) * 6) * t))
         else if t < 1 / 2 then q
         else if t < rd (2 / 3) then rd (p + rd (rd (rd (q - p) * rd (rd (2 / 3) - t)) * 6))
         else p)"

text \<open>\<open>hslToRgb\<close>, lines 38-58.\<close>

definition hslToRgb :: "real \<Rightarrow> real \<Rightarrow> real \<Rightarrow> int \<times> int \<times> int" where
  "hslToRgb h s l =
     (if s = 0 then (mathRound (rd (l * 255)), mathRound (rd (l * 255)), mathRound (rd (l * 255)))
      else
        (let q = (if l < 1 / 2 then rd (l * rd (1 + s)) else rd (rd (l + s) - rd (l * s)));
             p = rd (rd (2 * l) - q)
         in (mathRound (rd (hue2rgb p q (rd (h + rd (1 / 3))) * 255)),
             mathRound (rd (hue2rgb p q h * 255)),
             mathRound (rd (hue2rgb p q (rd (h - rd (1 / 3))) * 255)))))"

text \<open>
  \<open>hexToRgb\<close>, lines 61-68: the regular expression
  \<open>/^#?([a-f\d]{2})([a-f\d]{2})([a-f\d]{2})$/i\<close> accepts an optional \<open>#\<close> followed
  by exactly six hexadecimal digits of either case; \<open>parseInt(_, 16)\<close> reads each pair.
\<close>

definition hexDigit :: "char \<Rightarrow> int option" where
  "hexDigit c =
     (let n = (of_char c :: nat) in
      if 48 \<le> n \<and> n \<le> 57 then Some (int n - 48)
      else if 97 \<le> n \<and> n \<le> 102 then Some (int n - 87)
      else if 65 \<le> n \<and> n \<le> 70 then Some (int n - 55)
      else None)"

definition parseHexPair :: "char \<Rightarrow> char \<Rightarrow> int option" where
  "parseHexPair c1 c2 =
     (case (hexDigit c1, hexDigit c2) of
        (Some hi, Some lo) \<Rightarrow> Some (16 * hi + lo)
      | _ \<Rightarrow> None)"

definition hexToRgb :: "string \<Rightarrow> rgb option" where
  "hexToRgb hex =
     (let ds = (case hex of c # rest \<Rightarrow> if c = CHR ''#'' then rest else hex | [] \<Rightarrow> hex)
      in case ds of
           [c1, c2, c3, c4, c5, c6] \<Rightarrow>
             (case (parseHexPair c1 c2, parseHexPair c3 c4, parseHexPair c5 c6) of
                (Some x, Some y, Some z) \<Rightarrow> Some \<lparr>rgb_r = x, rgb_g = y, rgb_b = z\<rparr>
              | _ \<Rightarrow> None)
         | _ \<Rightarrow> None)"

text \<open>
  \<open>colorDistance\<close>, lines 71-77: the Euclidean distance of two colours.  It is kept
  exact here: the recolor pass only compares distances with each other and with 60, and
  on square roots of sums of three squares below \<open>256\<^sup>2\<close> these comparisons come out
  the same before and after rounding.
\<close>

definition sqDistance :: "rgb \<Rightarrow> rgb \<Rightarrow> int" where
  "sqDistance c1 c2 =
     (rgb_r c1 - rgb_r c2)\<^sup>2 + (rgb_g c1 - rgb_g c2)\<^sup>2 + (rgb_b c1 - rgb_b c2)\<^sup>2"

definition colorDistance :: "rgb \<Rightarrow> rgb \<Rightarrow> real" where
  "colorDistance c1 c2 = sqrt (of_int (sqDistance c1 c2))"

section \<open>The local frame processor\<close>

record ImageData =
  width :: nat
  height :: nat
  data :: "byte list"

datatype Mode = Recolor | RemoveBg

record RecolorPair =
  original :: string
  target :: string

record ProcessingConfig =
  recolorPairs :: "RecolorPair list option"
  removeBgColor :: "string option"
  bgReplacementColor :: "string option"

record ProcessedPair =
  originalRGB :: rgb
  targetHSL :: "real \<times> real \<times> real"

definition black :: rgb where
  "black = \<lparr>rgb_r = 0, rgb_g = 0, rgb_b = 0\<rparr>"

text \<open>Lines 193-198: a colour that does not parse counts as black.\<close>

definition processPair :: "RecolorPair \<Rightarrow> ProcessedPair" where
  "processPair p =
     (let originalRGB = (case hexToRgb (original p) of Some c \<Rightarrow> c | None \<Rightarrow> black);
          targetRGB = (case hexToRgb (target p) of Some c \<Rightarrow> c | None \<Rightarrow> black)
      in \<lparr>originalRGB = originalRGB,
          targetHSL = rgbToHsl (of_int (rgb_r targetRGB)) (of_int (rgb_g targetRGB))
                        (of_int (rgb_b targetRGB))\<rparr>)"

definition threshold :: real where
  "threshold = 60"

text \<open>
  Lines 207-218: the scan over the processed pairs, carrying \<open>bestMatch\<close> and
  \<open>minDistance\<close>.
\<close>

fun scanPairs ::
  "ProcessedPair list \<Rightarrow> rgb \<Rightarrow> ProcessedPair option \<times> real \<Rightarrow> ProcessedPair option \<times> real"
where
  "scanPairs [] cur st = st"
| "scanPairs (pair # rest) cur (bestMatch, minDistance) =
     (let dist = colorDistance cur (originalRGB pair)
      in if dist < minDistance then scanPairs rest cur (Some pair, dist)
         else scanPairs rest cur (bestMatch, minDistance))"

definition findBestMatch :: "ProcessedPair list \<Rightarrow> rgb \<Rightarrow> ProcessedPair option" where
  "findBestMatch pairs cur = fst (scanPairs pairs cur (None, threshold))"

text \<open>
  A pixel is the four bytes \<open>data[i], data[i+1], data[i+2], data[i+3]\<close>.  The loops
  \<open>for (let i = 0; i < data.length; i += 4)\<close> run their body on one pixel after the
  other.  The buffer of an \<open>ImageData\<close> holds four bytes per pixel, so the loop never
  meets a shorter remainder; the last equation leaves one untouched.
\<close>

type_synonym pixel = "byte \<times> byte \<times> byte \<times> byte"

fun pixelBytes :: "pixel \<Rightarrow> byte list" where
  "pixelBytes (r, g, b, a) = [r, g, b, a]"

fun forEachPixel :: "(pixel \<Rightarrow> pixel) \<Rightarrow> byte list \<Rightarrow> byte list" where
  "forEachPixel body (r # g # b # a # rest) =
     pixelBytes (body (r, g, b, a)) @ forEachPixel body rest"
| "forEachPixel body rest = rest"

definition pixelAt :: "byte list \<Rightarrow> nat \<Rightarrow> pixel" where
  "pixelAt d i = (d ! (4 * i), d ! (4 * i + 1), d ! (4 * i + 2), d ! (4 * i + 3))"

text \<open>Lines 203-233: the body of the recolor loop.\<close>

definition recolorPixel :: "ProcessedPair list \<Rightarrow> pixel \<Rightarrow> pixel" where
  "recolorPixel pairs px =
     (case px of (r, g, b, a) \<Rightarrow>
        if byteVal a < 10 then (r, g, b, a)
        else
          (let currentRGB = \<lparr>rgb_r = byteVal r, rgb_g = byteVal g, rgb_b = byteVal b\<rparr>
           in case findBestMatch pairs currentRGB of
                None \<Rightarrow> (r, g, b, a)
              | Some bestMatch \<Rightarrow>
                  (case targetHSL bestMatch of (tH, tS, tL) \<Rightarrow>
                   case rgbToHsl (of_int (rgb_r currentRGB)) (of_int (rgb_g currentRGB))
                          (of_int (rgb_b currentRGB)) of (cH, cS, cL) \<Rightarrow>
                   case hslToRgb tH tS cL of (nr, ng, nb) \<Rightarrow>
                     (toUint8Clamp (of_int nr), toUint8Clamp (of_int ng),
                      toUint8Clamp (of_int nb), a))))"

text \<open>Lines 192-235: the recolor pass runs when the mode is active and there are rules.\<close>

definition recolorPass :: "Mode list \<Rightarrow> ProcessingConfig \<Rightarrow> byte list \<Rightarrow> byte list" where
  "recolorPass modes config d =
     (case recolorPairs config of
        None \<Rightarrow> d
      | Some ps \<Rightarrow>
          if Recolor \<in> set modes \<and> length ps > 0
          then forEachPixel (recolorPixel (map processPair ps)) d
          else d)"

text \<open>Lines 238-278: background removal.\<close>

definition tolerance :: real where
  "tolerance = 60"

definition chromaGreen :: rgb where
  "chromaGreen = \<lparr>rgb_r = 0, rgb_g = 255, rgb_b = 0\<rparr>"

text \<open>\<open>config.removeBgColor || '#00FF00'\<close>, then \<open>hexToRgb(bgHex) || {r:0, g:255, b:0}\<close>.\<close>

definition bgRGB :: "ProcessingConfig \<Rightarrow> rgb" where
  "bgRGB config =
     (let bgHex = (case removeBgColor config of
                     None \<Rightarrow> ''#00FF00''
                   | Some s \<Rightarrow> if s = [] then ''#00FF00'' else s)
      in case hexToRgb bgHex of Some c \<Rightarrow> c | None \<Rightarrow> chromaGreen)"

text \<open>\<open>replaceHex ? hexToRgb(replaceHex) : null\<close>.\<close>

definition replaceRGB :: "ProcessingConfig \<Rightarrow> rgb option" where
  "replaceRGB config =
     (case bgReplacementColor config of
        None \<Rightarrow> None
      | Some s \<Rightarrow> if s = [] then None else hexToRgb s)"

text \<open>
  The body of the loop, lines 249-276.  \<open>diff\<close> is the double that \<open>Math.sqrt\<close>
  returns, and the feathering computes with it.
\<close>

definition removeBgPixel :: "rgb \<Rightarrow> rgb option \<Rightarrow> pixel \<Rightarrow> pixel" where
  "removeBgPixel bg repl px =
     (case px of (r, g, b, a) \<Rightarrow>
        if byteVal a = 0 then (r, g, b, a)
        else
          (let diff = rd (colorDistance \<lparr>rgb_r = byteVal r, rgb_g = byteVal g, rgb_b = byteVal b\<rparr> bg)
           in if diff < tolerance then
                (case repl of
                   Some c \<Rightarrow> (toUint8Clamp (of_int (rgb_r c)), toUint8Clamp (of_int (rgb_g c)),
                              toUint8Clamp (of_int (rgb_b c)), 255)
                 | None \<Rightarrow> (r, g, b, 0))
              else if diff < tolerance + 20 \<and> repl = None then
                (let alpha = rd (rd (diff - tolerance) / 20)
                 in (r, g, b, toUint8Clamp (max 0 (min 255 (rd (of_int (byteVal a) * alpha))))))
              else (r, g, b, a)))"

definition removeBgPass :: "Mode list \<Rightarrow> ProcessingConfig \<Rightarrow> byte list \<Rightarrow> byte list" where
  "removeBgPass modes config d =
     (if RemoveBg \<in> set modes
      then forEachPixel (removeBgPixel (bgRGB config) (replaceRGB config)) d
      else d)"

text \<open>
  \<open>processFrameLocal\<close>, lines 170-282.  Whether \<open>canvas.getContext('2d')\<close> yields a
  context is a fact of the hosting environment, here the first argument.  Without one the
  function returns its input (line 179); it has no \<open>throw\<close>.  The result type still has
  room for the error the specification names, so that its absence can be stated.  With a
  context the final \<open>putImageData\<close>/\<open>getImageData\<close> pair is taken to hand the processed
  buffer back as it is; a canvas that keeps premultiplied colours may change pixels with
  alpha below 255 on the way, so the values of the pixels are stated below for the two
  passes, \<open>recolorPass\<close> and \<open>removeBgPass\<close>, and only the branch without a context is
  stated for this function.
\<close>

datatype LocalProcessingError = RenderContextUnavailable

definition processFrameLocal ::
  "bool \<Rightarrow> ImageData \<Rightarrow> Mode list \<Rightarrow> ProcessingConfig \<Rightarrow> LocalProcessingError + ImageData"
where
  "processFrameLocal ctxAvailable imageData modes config =
     (if \<not> ctxAvailable then Inr imageData
      else Inr (imageData\<lparr>data := removeBgPass modes config (recolorPass modes config (data imageData))\<rparr>))"

section \<open>Retrying the remote call (services/geminiService.ts)\<close>







section \<open>Ingestion and the project run (components/GifEditor.tsx)\<close>

record GifFrame =
  imageData :: ImageData
  delay :: nat

definition MAX_FRAMES :: nat where
  "MAX_FRAMES = 50"

text \<open>
  \<open>filter((_, i) => i % stride === 0)\<close>: the elements whose index, counted from
  \<open>i\<close>, is a multiple of the stride.
\<close>

fun filterStride :: "nat \<Rightarrow> nat \<Rightarrow> 'a list \<Rightarrow> 'a list" where
  "filterStride stride i [] = []"
| "filterStride stride i (f # fs) =
     (if i mod stride = 0 then f # filterStride stride (i + 1) fs
      else filterStride stride (i + 1) fs)"

text \<open>Lines 159-166 of \<open>handleFileUpload\<close>.\<close>

definition downsample :: "GifFrame list \<Rightarrow> GifFrame list" where
  "downsample parsedFrames =
     (if length parsedFrames > MAX_FRAMES then
        (let stride = nat \<lceil>real (length parsedFrames) / real MAX_FRAMES\<rceil>
         in map (\<lambda>f. f\<lparr>delay := delay f * stride\<rparr>) (filterStride stride 0 parsedFrames))
      else parsedFrames)"

text \<open>
  Lines 353-357 of \<open>triggerProcessProject\<close>: the transparent key handed to
  \<open>createGif\<close>.
\<close>

definition transparentKey :: "Mode list \<Rightarrow> string \<Rightarrow> bool \<Rightarrow> bool \<Rightarrow> nat option" where
  "transparentKey activeModes bgReplaceColor activeUseAI quotaLimitReached =
     (if RemoveBg \<in> set activeModes \<and> bgReplaceColor = ''transparent'' then
        (if activeUseAI \<and> \<not> quotaLimitReached then Some 0x00FF00 else None)
      else None)"

subsection \<open>The frame jobs of one run\<close>

text \<open>
  \<open>triggerProcessProject\<close> starts \<open>min(2, n)\<close> workers over a queue of the frame
  indices.  JavaScript runs each worker without interruption from one \<open>await\<close> to the
  next, so a run is a sequence of such uninterrupted pieces; which worker goes next, what
  the remote service answers and when the user aborts are the environment's choices, the
  actions below; the order of the pieces is left free.  A worker is idle, or inside \<open>processSingleFrame\<close> for a frame index:
  waiting for the stagger timer (line 280), waiting for the answer of a remote call with a
  number of retries left, or waiting for a backoff timer.
\<close>

datatype wstate = Idle | Stagger nat | Calling nat nat | Backoff nat nat

datatype outcome = RemoteResult | LocalResult

datatype event = Started nat bool | RemoteCall nat


text \<open>
  The trace is kept for the statements only: \<open>Started j q\<close> records that the job of
  frame \<open>j\<close> started when \<open>quotaLimitReached\<close> was \<open>q\<close>, \<open>RemoteCall j\<close> that a
  remote call was sent for frame \<open>j\<close>.  The newest event is first.
\<close>

record run =
  queue :: "nat list"
  quotaLimitReached :: bool
  abortRef :: bool
  workers :: "wstate list"
  results :: "nat \<rightharpoonup> outcome"
  completedCount :: nat
  trace :: "event list"






section \<open>Inputs of the examples\<close>

text \<open>The configuration with the single recolor rule red to blue.\<close>

definition redToBlue :: ProcessingConfig where
  "redToBlue = \<lparr>recolorPairs = Some [\<lparr>original = ''#FF0000'', target = ''#0000FF''\<rparr>],
                removeBgColor = None, bgReplacementColor = None\<rparr>"

text \<open>Three processed rules; the last two are equally far from the colour (254,0,0).\<close>

definition tiedPairs :: "ProcessedPair list" where
  "tiedPairs =
     [\<lparr>originalRGB = \<lparr>rgb_r = 200, rgb_g = 0, rgb_b = 0\<rparr>, targetHSL = (0, 1, 1 / 2)\<rparr>,
      \<lparr>originalRGB = \<lparr>rgb_r = 255, rgb_g = 0, rgb_b = 0\<rparr>, targetHSL = (2 / 3, 1, 1 / 2)\<rparr>,
      \<lparr>originalRGB = \<lparr>rgb_r = 253, rgb_g = 0, rgb_b = 0\<rparr>, targetHSL = (1 / 3, 1, 1 / 2)\<rparr>]"

text \<open>Removal of a green background, to transparency and to solid blue.\<close>

definition keyOutGreen :: ProcessingConfig where
  "keyOutGreen = \<lparr>recolorPairs = None, removeBgColor = Some ''#00FF00'', bgReplacementColor = None\<rparr>"

definition greenToBlue :: ProcessingConfig where
  "greenToBlue = \<lparr>recolorPairs = None, removeBgColor = Some ''#00FF00'',
                  bgReplacementColor = Some ''#0000FF''\<rparr>"

text \<open>A frame of one opaque red pixel, with the default delay.\<close>

definition onePixelFrame :: ImageData where
  "onePixelFrame = \<lparr>width = 1, height = 1, data = [255, 0, 0, 255]\<rparr>"

definition frame0 :: GifFrame where
  "frame0 = \<lparr>imageData = onePixelFrame, delay = 100\<rparr>"



section \<open>The invariant of a run\<close>





text \<open>The configuration with the single recolor rule black to white.\<close>

definition blackToWhite :: ProcessingConfig where
  "blackToWhite = \<lparr>recolorPairs = Some [\<lparr>original = ''#000000'', target = ''#FFFFFF''\<rparr>],
                   removeBgColor = None, bgReplacementColor = None\<rparr>"

section \<open>Properties of the pixel loops\<close>


lemma pixelBytes_len: "length (pixelBytes p) = 4"
  by (cases p) simp

lemma length_forEachPixel: "length (forEachPixel body d) = length d"
  by (induction body d rule: forEachPixel.induct) (auto simp: pixelBytes_len)

lemma pixelAt_forEachPixel:
  "4 * i + 3 < length d \<Longrightarrow> pixelAt (forEachPixel body d) i = body (pixelAt d i)"
proof (induction body d arbitrary: i rule: forEachPixel.induct)
  case (1 body r g b a rest)
  show ?case
  proof (cases i)
    case 0
    then show ?thesis by (cases "body (r, g, b, a)") (simp add: pixelAt_def)
  next
    case (Suc j)
    with "1.prems" have "4 * j + 3 < length rest" by simp
    then have "pixelAt (forEachPixel body rest) j = body (pixelAt rest j)"
      by (rule "1.IH")
    with Suc show ?thesis by (simp add: pixelAt_def nth_append pixelBytes_len add.commute)
  qed
qed (simp_all)

lemma sqDistance_nonneg: "0 \<le> sqDistance c1 c2"
  by (simp add: sqDistance_def)

lemma colorDistance_less_iff:
  "0 \<le> y \<Longrightarrow> colorDistance c1 c2 < y \<longleftrightarrow> real_of_int (sqDistance c1 c2) < y\<^sup>2"
  unfolding colorDistance_def
  using sqDistance_nonneg [of c1 c2]
  by (metis of_int_0_le_iff real_sqrt_less_iff real_sqrt_abs abs_of_nonneg real_sqrt_ge_0_iff)

lemma scanPairs_no_match:
  "\<forall>p \<in> set ps. minD \<le> colorDistance cur (originalRGB p) \<Longrightarrow>
   scanPairs ps cur (best, minD) = (best, minD)"
  by (induction ps) (auto simp: Let_def)



lemma recolorPixel_skip: "byteVal a < 10 \<Longrightarrow> recolorPixel pairs (r, g, b, a) = (r, g, b, a)"
  by (simp add: recolorPixel_def)

lemma recolorPixel_far:
  assumes "\<forall>p \<in> set pairs. 60 \<le> colorDistance \<lparr>rgb_r = byteVal r, rgb_g = byteVal g, rgb_b = byteVal b\<rparr> (originalRGB p)"
  shows "recolorPixel pairs (r, g, b, a) = (r, g, b, a)"
proof -
  have "findBestMatch pairs \<lparr>rgb_r = byteVal r, rgb_g = byteVal g, rgb_b = byteVal b\<rparr> = None"
    unfolding findBestMatch_def threshold_def
    using scanPairs_no_match [OF assms, of None] by simp
  then show ?thesis by (simp add: recolorPixel_def)
qed

text \<open>
  Claim C1.  With a non-empty rule list and the recolor mode active, the recolor pass
  leaves a pixel byte-identical (red, green, blue and alpha) when its alpha is at least 10
  and its Euclidean RGB distance to the source colour of every rule is at least 60; and
  it leaves every pixel with alpha below 10 as it is, never recolouring it.
\<close>

theorem recolor_far_or_transparent_pixel_unchanged:
  assumes "recolorPairs config = Some ps" and "ps \<noteq> []" and "Recolor \<in> set modes"
    and "4 * i + 3 < length d"
    and "pixelAt d i = (r, g, b, a)"
  shows "(10 \<le> byteVal a \<and>
          (\<forall>p \<in> set ps. 60 \<le> colorDistance \<lparr>rgb_r = byteVal r, rgb_g = byteVal g, rgb_b = byteVal b\<rparr>
                                   (originalRGB (processPair p)))
          \<longrightarrow> pixelAt (recolorPass modes config d) i = (r, g, b, a))
       \<and> (byteVal a < 10 \<longrightarrow> pixelAt (recolorPass modes config d) i = (r, g, b, a))"
proof -
  have pass: "recolorPass modes config d = forEachPixel (recolorPixel (map processPair ps)) d"
    using assms(1-3) by (simp add: recolorPass_def)
  have at: "pixelAt (recolorPass modes config d) i = recolorPixel (map processPair ps) (r, g, b, a)"
    using pixelAt_forEachPixel [OF assms(4)] assms(5) by (simp add: pass)
  show ?thesis
  proof (intro conjI impI)
    assume "10 \<le> byteVal a \<and>
          (\<forall>p \<in> set ps. 60 \<le> colorDistance \<lparr>rgb_r = byteVal r, rgb_g = byteVal g, rgb_b = byteVal b\<rparr>
                                   (originalRGB (processPair p)))"
    then have "\<forall>p \<in> set (map processPair ps). 60 \<le> colorDistance \<lparr>rgb_r = byteVal r, rgb_g = byteVal g, rgb_b = byteVal b\<rparr> (originalRGB p)"
      by simp
    then show "pixelAt (recolorPass modes config d) i = (r, g, b, a)"
      by (simp only: at recolorPixel_far)
  next
    assume "byteVal a < 10"
    then show "pixelAt (recolorPass modes config d) i = (r, g, b, a)"
      by (simp only: at recolorPixel_skip)
  qed
qed

lemma hexToRgb_red: "hexToRgb ''#FF0000'' = Some \<lparr>rgb_r = 255, rgb_g = 0, rgb_b = 0\<rparr>"
  by (simp add: hexToRgb_def parseHexPair_def hexDigit_def)

text \<open>
  With the rule red to blue: the pixel (10,20,30) with alpha 255 is far from red and
  stays; the pixel (250,0,0) with alpha 9 is close to red but is skipped.
\<close>

theorem recolor_far_or_transparent_pixel_unchanged_witness:
  "pixelAt (recolorPass [Recolor] redToBlue [10, 20, 30, 255, 250, 0, 0, 9]) 0 = (10, 20, 30, 255)
   \<and> pixelAt (recolorPass [Recolor] redToBlue [10, 20, 30, 255, 250, 0, 0, 9]) 1 = (250, 0, 0, 9)"
proof -
  let ?d = "[10, 20, 30, 255, 250, 0, 0, 9] :: byte list"
  let ?ps = "[\<lparr>original = ''#FF0000'', target = ''#0000FF''\<rparr>]"
  have cfg: "recolorPairs redToBlue = Some ?ps" "?ps \<noteq> []" "Recolor \<in> set [Recolor]"
    by (simp_all add: redToBlue_def)
  have far: "\<forall>p \<in> set ?ps. 60 \<le> colorDistance \<lparr>rgb_r = byteVal 10, rgb_g = byteVal 20, rgb_b = byteVal 30\<rparr>
                                   (originalRGB (processPair p))"
    by (simp add: processPair_def hexToRgb_red Let_def not_less [symmetric]
        colorDistance_less_iff sqDistance_def byteVal_def)
  have p0: "4 * 0 + 3 < length ?d" "pixelAt ?d 0 = (10, 20, 30, 255)"
    by (simp_all add: pixelAt_def)
  have p1: "4 * 1 + 3 < length ?d" "pixelAt ?d 1 = (250, 0, 0, 9)"
    by (simp_all add: pixelAt_def)
  have a0: "10 \<le> byteVal (255 :: byte)" and a1: "byteVal (9 :: byte) < 10"
    by (simp_all add: byteVal_def)
  from recolor_far_or_transparent_pixel_unchanged [OF cfg p0] far a0
  have "pixelAt (recolorPass [Recolor] redToBlue ?d) 0 = (10, 20, 30, 255)" by blast
  moreover from recolor_far_or_transparent_pixel_unchanged [OF cfg p1] a1
  have "pixelAt (recolorPass [Recolor] redToBlue ?d) 1 = (250, 0, 0, 9)" by blast
  ultimately show ?thesis by simp
qed

section \<open>The best match\<close>

lemma scanPairs_first_min:
  assumes "i < length ps"
    and "colorDistance cur (originalRGB (ps ! i)) < m"
    and "\<forall>j < length ps. colorDistance cur (originalRGB (ps ! i)) \<le> colorDistance cur (originalRGB (ps ! j))"
    and "\<forall>j < i. colorDistance cur (originalRGB (ps ! j)) \<noteq> colorDistance cur (originalRGB (ps ! i))"
  shows "scanPairs ps cur (best, m) = (Some (ps ! i), colorDistance cur (originalRGB (ps ! i)))"
  using assms
proof (induction ps arbitrary: i best m)
  case Nil
  then show ?case by simp
next
  case (Cons p ps)
  let ?d = "\<lambda>q. colorDistance cur (originalRGB q)"
  show ?case
  proof (cases i)
    case 0
    have "\<forall>q \<in> set ps. ?d p \<le> ?d q"
    proof
      fix q assume "q \<in> set ps"
      then obtain k where "k < length ps" "q = ps ! k" by (auto simp: in_set_conv_nth)
      with Cons.prems(3) 0 show "?d p \<le> ?d q" by (auto dest: spec [of _ "Suc k"])
    qed
    then have "scanPairs ps cur (Some p, ?d p) = (Some p, ?d p)"
      by (rule scanPairs_no_match)
    with Cons.prems(2) 0 show ?thesis by simp
  next
    case (Suc k)
    have k: "k < length ps" using Cons.prems(1) Suc by simp
    have min: "\<forall>j < length ps. ?d (ps ! k) \<le> ?d (ps ! j)"
      using Cons.prems(3) Suc by auto
    have first: "\<forall>j < k. ?d (ps ! j) \<noteq> ?d (ps ! k)"
      using Cons.prems(4) Suc by auto
    have "?d (ps ! k) \<le> ?d p" using Cons.prems(3) Suc by auto
    moreover have "?d p \<noteq> ?d (ps ! k)" using Cons.prems(4) Suc by auto
    ultimately have lt: "?d (ps ! k) < ?d p" by simp
    have below: "?d (ps ! k) < m" using Cons.prems(2) Suc by simp
    show ?thesis
    proof (cases "?d p < m")
      case True
      then show ?thesis
        using Cons.IH [OF k lt min first, of "Some p"] Suc by simp
    next
      case False
      then show ?thesis
        using Cons.IH [OF k below min first, of best] Suc by simp
    qed
  qed
qed

text \<open>
  Claim C10.  The scan replaces the current best only on a strictly smaller distance, so
  among the rules at the minimal distance below 60 the earliest in the list wins: when
  index \<open>i\<close> is the first to attain the minimum of the distances and that minimum is
  below the threshold, the chosen rule is the one at index \<open>i\<close>.
\<close>

theorem best_match_is_first_minimum:
  assumes "i < length pairs"
    and "colorDistance cur (originalRGB (pairs ! i)) < 60"
    and "\<forall>j < length pairs. colorDistance cur (originalRGB (pairs ! i)) \<le> colorDistance cur (originalRGB (pairs ! j))"
    and "\<forall>j < i. colorDistance cur (originalRGB (pairs ! j)) \<noteq> colorDistance cur (originalRGB (pairs ! i))"
  shows "findBestMatch pairs cur = Some (pairs ! i)"
  unfolding findBestMatch_def threshold_def
  using scanPairs_first_min [OF assms(1) assms(2) assms(3) assms(4), of None] by simp

text \<open>
  The pixel (254,0,0) is at distance 1 from the second and from the third rule and at
  distance 54 from the first: the second rule is chosen.
\<close>

theorem best_match_is_first_minimum_witness:
  "findBestMatch tiedPairs \<lparr>rgb_r = 254, rgb_g = 0, rgb_b = 0\<rparr> = Some (tiedPairs ! 1)
   \<and> colorDistance \<lparr>rgb_r = 254, rgb_g = 0, rgb_b = 0\<rparr> (originalRGB (tiedPairs ! 1))
     = colorDistance \<lparr>rgb_r = 254, rgb_g = 0, rgb_b = 0\<rparr> (originalRGB (tiedPairs ! 2))
   \<and> tiedPairs ! 1 \<noteq> tiedPairs ! 2"
proof -
  let ?cur = "\<lparr>rgb_r = 254, rgb_g = 0, rgb_b = 0\<rparr>"
  have h1: "1 < length tiedPairs" by (simp add: tiedPairs_def)
  have h2: "colorDistance ?cur (originalRGB (tiedPairs ! 1)) < 60"
    by (simp add: tiedPairs_def colorDistance_less_iff sqDistance_def)
  have h3: "\<forall>j < length tiedPairs. colorDistance ?cur (originalRGB (tiedPairs ! 1))
              \<le> colorDistance ?cur (originalRGB (tiedPairs ! j))"
    by (simp add: tiedPairs_def colorDistance_def sqDistance_def nth_Cons' less_Suc_eq numeral_3_eq_3)
  have h4: "\<forall>j < 1. colorDistance ?cur (originalRGB (tiedPairs ! j))
              \<noteq> colorDistance ?cur (originalRGB (tiedPairs ! 1))"
    by (simp add: tiedPairs_def colorDistance_def sqDistance_def)
  have tie: "colorDistance ?cur (originalRGB (tiedPairs ! 1))
     = colorDistance ?cur (originalRGB (tiedPairs ! 2))" "tiedPairs ! 1 \<noteq> tiedPairs ! 2"
    by (simp_all add: tiedPairs_def colorDistance_def sqDistance_def)
  from best_match_is_first_minimum [OF h1 h2 h3 h4] tie show ?thesis by simp
qed

section \<open>Bytes, clamping and parsed colours\<close>

lemma byteVal_range: "0 \<le> byteVal w" "byteVal w \<le> 255"
proof -
  show "0 \<le> byteVal w" by (simp add: byteVal_def)
  have "uint w < 2 ^ LENGTH(8)" by (rule uint_bounded)
  then show "byteVal w \<le> 255" by (simp add: byteVal_def)
qed

lemma byteVal_of_int: "0 \<le> k \<Longrightarrow> k \<le> 255 \<Longrightarrow> byteVal (of_int k) = k"
  by (simp add: byteVal_def unat_eq_nat_uint uint_word_of_int take_bit_eq_mod)

lemma byteVal_inject: "byteVal v = byteVal w \<Longrightarrow> v = w"
  by (simp add: byteVal_def word_uint_eq_iff)

lemma toUint8Clamp_of_int:
  assumes "0 \<le> k" "k \<le> 255"
  shows "byteVal (toUint8Clamp (of_int k)) = k"
proof -
  consider "k = 0" | "k = 255" | "0 < k" "k < 255" using assms by linarith
  then show ?thesis
  proof cases
    case 1 then show ?thesis by (simp add: toUint8Clamp_def byteVal_def)
  next
    case 2 then show ?thesis by (simp add: toUint8Clamp_def byteVal_def)
  next
    case 3 then show ?thesis by (simp add: toUint8Clamp_def byteVal_of_int)
  qed
qed

lemma toUint8Clamp_byteVal: "toUint8Clamp (of_int (byteVal w)) = w"
  by (rule byteVal_inject) (simp add: toUint8Clamp_of_int byteVal_range)

lemma toUint8Clamp_near:
  assumes "0 \<le> x" "x \<le> 255"
  shows "\<bar>of_int (byteVal (toUint8Clamp x)) - x\<bar> \<le> 1 / 2"
proof -
  consider "x = 0" | "x = 255" | "0 < x" "x < 255" using assms by linarith
  then show ?thesis
  proof cases
    case 1 then show ?thesis by (simp add: toUint8Clamp_def byteVal_def)
  next
    case 2 then show ?thesis by (simp add: toUint8Clamp_def byteVal_def)
  next
    case 3
    let ?f = "\<lfloor>x\<rfloor>"
    have f0: "0 \<le> ?f" using 3 by simp
    have f1: "?f \<le> 254" using 3 by (simp add: floor_le_iff)
    have fx: "of_int ?f \<le> x" "x < of_int ?f + 1" by linarith+
    have b0: "byteVal (of_int ?f) = ?f" using f0 f1 by (simp add: byteVal_of_int)
    have b1: "byteVal (of_int (?f + 1)) = ?f + 1" using f0 f1 by (intro byteVal_of_int) simp_all
    have up: "\<bar>real_of_int (\<lfloor>x\<rfloor> + 1) - x\<bar> \<le> 1 / 2" if "real_of_int \<lfloor>x\<rfloor> + 1 / 2 \<le> x"
      using that fx by simp
    have down: "\<bar>real_of_int \<lfloor>x\<rfloor> - x\<bar> \<le> 1 / 2" if "x \<le> real_of_int \<lfloor>x\<rfloor> + 1 / 2"
      using that fx by linarith
    consider (hi) "real_of_int ?f + 1 / 2 < x" | (lo) "x < real_of_int ?f + 1 / 2"
      | (tie) "x = real_of_int ?f + 1 / 2" by linarith
    then show ?thesis
    proof cases
      case hi
      then have "toUint8Clamp x = of_int (?f + 1)" using 3 by (simp add: toUint8Clamp_def)
      with hi up b1 show ?thesis by simp
    next
      case lo
      then have "toUint8Clamp x = of_int ?f" using 3 by (simp add: toUint8Clamp_def)
      with lo down b0 show ?thesis by simp
    next
      case tie
      then have "toUint8Clamp x = (if even ?f then of_int ?f else of_int (?f + 1))"
        using 3 unfolding toUint8Clamp_def Let_def by (simp del: of_int_add)
      with tie up down b0 b1 show ?thesis by (simp del: of_int_add)
    qed
  qed
qed

lemma toUint8Clamp_half_even:
  assumes "even (byteVal a)"
  shows "byteVal (toUint8Clamp (of_int (byteVal a) / 2)) = byteVal a div 2"
proof -
  from assms obtain k where k: "byteVal a = 2 * k" by (auto elim: evenE)
  have "0 \<le> k" "k \<le> 255" using byteVal_range [of a] k by simp_all
  with k show ?thesis by (simp add: toUint8Clamp_of_int)
qed

lemma hexDigit_range: "hexDigit c = Some v \<Longrightarrow> 0 \<le> v \<and> v \<le> 15"
  by (auto simp: hexDigit_def Let_def split: if_splits)

lemma parseHexPair_range: "parseHexPair c1 c2 = Some v \<Longrightarrow> 0 \<le> v \<and> v \<le> 255"
  by (auto simp: parseHexPair_def split: option.splits dest!: hexDigit_range)

lemma hexToRgb_range:
  assumes "hexToRgb hex = Some c"
  shows "0 \<le> rgb_r c \<and> rgb_r c \<le> 255 \<and> 0 \<le> rgb_g c \<and> rgb_g c \<le> 255 \<and> 0 \<le> rgb_b c \<and> rgb_b c \<le> 255"
proof -
  from assms obtain c1 c2 c3 c4 c5 c6 where
    "parseHexPair c1 c2 = Some (rgb_r c)" "parseHexPair c3 c4 = Some (rgb_g c)"
    "parseHexPair c5 c6 = Some (rgb_b c)"
    by (auto simp: hexToRgb_def Let_def split: list.splits option.splits if_splits)
  then show ?thesis by (auto dest!: parseHexPair_range)
qed

lemma colorDistance_eqI:
  "0 \<le> k \<Longrightarrow> real_of_int (sqDistance c1 c2) = k\<^sup>2 \<Longrightarrow> colorDistance c1 c2 = k"
  by (simp add: colorDistance_def)

lemma colorDistance_self: "colorDistance c c = 0"
  by (simp add: colorDistance_def sqDistance_def)

lemma toUint8Clamp_of_int_word:
  "0 \<le> k \<Longrightarrow> k \<le> 255 \<Longrightarrow> toUint8Clamp (of_int k) = of_int k"
  by (rule byteVal_inject) (simp add: toUint8Clamp_of_int byteVal_of_int)

section \<open>The transparent key and the missing context\<close>

text \<open>
  Claim C7.  The encoder receives the transparent key 0x00FF00 exactly when remove-bg is
  active, the requested replacement is \<open>transparent\<close>, the remote path is in use and
  the quota flag is not set; in every other case, so with the remote path disabled, it
  receives none.
\<close>

theorem transparent_key_passed_iff:
  "transparentKey activeModes bgReplaceColor activeUseAI quotaReached
     = (if RemoveBg \<in> set activeModes \<and> bgReplaceColor = ''transparent''
           \<and> activeUseAI \<and> \<not> quotaReached
        then Some 0x00FF00 else None)
   \<and> transparentKey [RemoveBg] ''transparent'' False quotaReached = None"
  by (simp add: transparentKey_def)

text \<open>
  The four conditions met give the key; dropping any one of three of them gives none.
\<close>

theorem transparent_key_passed_iff_witness:
  "transparentKey [RemoveBg] ''transparent'' True False = Some 0x00FF00
   \<and> transparentKey [RemoveBg] ''transparent'' True True = None
   \<and> transparentKey [RemoveBg] ''#FFFFFF'' True False = None
   \<and> transparentKey [Recolor] ''transparent'' True False = None"
  using transparent_key_passed_iff [of "[RemoveBg]" "''transparent''" True False]
    transparent_key_passed_iff [of "[RemoveBg]" "''transparent''" True True]
    transparent_key_passed_iff [of "[RemoveBg]" "''#FFFFFF''" True False]
    transparent_key_passed_iff [of "[Recolor]" "''transparent''" True False]
  by simp

text \<open>
  Claim C8, as the code has it.  Without a rendering context the local frame processor
  returns its input frame unchanged, whatever the modes and the configuration; it raises
  no error.
\<close>

theorem no_context_returns_input:
  "processFrameLocal False img modes config = Inr img"
  by (simp add: processFrameLocal_def)

text \<open>
  Claim C8 as stated fails: on a one-pixel red frame with the recolor rule red to blue and
  no context, the result is not the error \<open>RenderContextUnavailable\<close> but the input
  frame itself.
\<close>

theorem no_context_error_counterexample:
  "processFrameLocal False onePixelFrame [Recolor] redToBlue \<noteq> Inl RenderContextUnavailable
   \<and> processFrameLocal False onePixelFrame [Recolor] redToBlue = Inr onePixelFrame"
  by (simp add: processFrameLocal_def)

section \<open>Downsampling\<close>

lemma filterStride_nth:
  "filterStride stride k fs
     = map (\<lambda>i. fs ! (i - k)) (filter (\<lambda>i. i mod stride = 0) [k..<k + length fs])"
proof (induction fs arbitrary: k)
  case Nil
  then show ?case by simp
next
  case (Cons f fs)
  have tl: "map (\<lambda>i. (f # fs) ! (i - k)) (filter (\<lambda>i. i mod stride = 0) [Suc k..<Suc k + length fs])
          = map (\<lambda>i. fs ! (i - Suc k)) (filter (\<lambda>i. i mod stride = 0) [Suc k..<Suc k + length fs])"
    by (rule map_cong) (auto simp: Suc_diff_Suc less_eq_Suc_le)
  have up: "[k..<k + length (f # fs)] = k # [Suc k..<Suc k + length fs]"
    by (subst upt_rec) simp
  show ?case
    unfolding up using Cons.IH [of "Suc k"] tl by simp
qed

lemma count_multiples:
  assumes "0 < s"
  shows "n \<le> length (filter (\<lambda>i. i mod s = 0) [0..<n]) * s
       \<and> length (filter (\<lambda>i. i mod s = 0) [0..<n]) * s < n + s"
proof (induction n)
  case 0
  then show ?case using assms by simp
next
  case (Suc n)
  let ?c = "length (filter (\<lambda>i. i mod s = 0) [0..<n])"
  show ?case
  proof (cases "n mod s = 0")
    case True
    then have "s dvd n" by (rule mod_0_imp_dvd)
    then obtain q where q: "n = q * s" unfolding dvd_def by (auto simp: mult.commute)
    from Suc q have "q * s \<le> ?c * s" "?c * s < q * s + s" by simp_all
    then have "q \<le> ?c" "?c < q + 1" using assms
      by (simp, metis add.commute mult_Suc mult_less_cancel2 Suc_eq_plus1)
    then have "?c * s = n" using q by simp
    with True assms show ?thesis by simp
  next
    case False
    have "?c * s \<noteq> n" using False by (metis mod_mult_self2_is_0)
    with Suc False show ?thesis by simp
  qed
qed

text \<open>
  Claim C9.  A frame list of length \<open>n\<close> above 50 is reduced to the frames at the
  indices divisible by \<open>stride = ceil (n / 50)\<close>, in order, each delay multiplied by
  the stride, and at most 50 frames remain; a list of at most 50 frames is passed through
  unchanged.
\<close>

theorem downsample_stride:
  assumes "n = length frames" and "stride = nat \<lceil>real n / 50\<rceil>"
  shows "(50 < n \<longrightarrow>
            downsample frames
              = map (\<lambda>i. (frames ! i)\<lparr>delay := delay (frames ! i) * stride\<rparr>)
                  (filter (\<lambda>i. stride dvd i) [0..<n])
            \<and> length (downsample frames) \<le> 50)
       \<and> (n \<le> 50 \<longrightarrow> downsample frames = frames)"
proof (intro conjI impI)
  assume "n \<le> 50"
  then show "downsample frames = frames" using assms by (simp add: downsample_def MAX_FRAMES_def)
next
  assume big: "50 < n"
  have ds: "downsample frames
      = map (\<lambda>f. f\<lparr>delay := delay f * stride\<rparr>) (filterStride stride 0 frames)"
    using big assms by (simp add: downsample_def MAX_FRAMES_def Let_def)
  show "downsample frames
              = map (\<lambda>i. (frames ! i)\<lparr>delay := delay (frames ! i) * stride\<rparr>)
                  (filter (\<lambda>i. stride dvd i) [0..<n])"
    by (simp add: ds filterStride_nth assms(1) dvd_eq_mod_eq_0 o_def)
  have "real n / 50 \<le> real_of_int \<lceil>real n / 50\<rceil>" by (rule le_of_int_ceiling)
  moreover have "0 \<le> \<lceil>real n / 50\<rceil>" by (simp add: ceiling_le_iff [symmetric] le_ceiling_iff)
  ultimately have "real n / 50 \<le> real stride" using assms(2) by simp
  then have cover: "n \<le> 50 * stride" by (simp add: of_nat_le_iff [symmetric, where 'a = real] del: of_nat_le_iff)
  with big have pos: "0 < stride" by (cases stride) simp_all
  let ?c = "length (filter (\<lambda>i. i mod stride = 0) [0..<n])"
  from count_multiples [OF pos, of n] have "?c * stride < n + stride" by simp
  with cover have "?c * stride < 51 * stride" by linarith
  then have "?c < 51" by simp
  then show "length (downsample frames) \<le> 50"
    by (simp add: ds filterStride_nth assms(1))
qed

text \<open>
  Fifty-one frames are cut down to at most fifty, three frames are kept as they are.
\<close>

theorem downsample_stride_witness:
  "50 < length (replicate 51 frame0)
   \<and> length (downsample (replicate 51 frame0)) \<le> 50
   \<and> downsample (replicate 3 frame0) = replicate 3 frame0"
proof -
  have big: "50 < length (replicate 51 frame0)" by simp
  have small: "length (replicate 3 frame0) \<le> 50" by simp
  from downsample_stride [OF refl refl, of "replicate 51 frame0"] big
  have "length (downsample (replicate 51 frame0)) \<le> 50" by blast
  moreover from downsample_stride [OF refl refl, of "replicate 3 frame0"] small
  have "downsample (replicate 3 frame0) = replicate 3 frame0" by blast
  ultimately show ?thesis using big by blast
qed

section \<open>The retry schedule\<close>





section \<open>The quota flag as a circuit breaker\<close>














section \<open>Rounding to the nearest double\<close>

lemma roundHalfEven_of_int: "roundHalfEven (of_int k) = k"
  by (simp add: roundHalfEven_def)

lemma roundHalfEven_near: "\<bar>of_int (roundHalfEven x) - x\<bar> \<le> 1 / 2"
proof -
  have fx: "of_int \<lfloor>x\<rfloor> \<le> x" "x < of_int \<lfloor>x\<rfloor> + 1" by linarith+
  consider (hi) "real_of_int \<lfloor>x\<rfloor> + 1 / 2 < x" | (lo) "x < real_of_int \<lfloor>x\<rfloor> + 1 / 2"
    | (tie) "x = real_of_int \<lfloor>x\<rfloor> + 1 / 2" by linarith
  then show ?thesis
  proof cases
    case hi
    then have "roundHalfEven x = \<lfloor>x\<rfloor> + 1" by (simp add: roundHalfEven_def)
    with hi fx show ?thesis by simp
  next
    case lo
    then have "roundHalfEven x = \<lfloor>x\<rfloor>" by (simp add: roundHalfEven_def)
    with lo fx show ?thesis by simp
  next
    case tie
    then have "roundHalfEven x = \<lfloor>x\<rfloor> \<or> roundHalfEven x = \<lfloor>x\<rfloor> + 1"
      by (simp add: roundHalfEven_def Let_def)
    with tie show ?thesis by auto
  qed
qed

lemma roundHalfEven_bounds:
  "of_int \<lfloor>x\<rfloor> \<le> (of_int (roundHalfEven x) :: real)" "roundHalfEven x \<le> \<lfloor>x\<rfloor> + 1"
  unfolding roundHalfEven_def Let_def by auto

lemma roundHalfEven_mono:
  assumes "x \<le> y"
  shows "roundHalfEven x \<le> roundHalfEven y"
proof (cases "\<lfloor>x\<rfloor> = \<lfloor>y\<rfloor>")
  case True
  with assms show ?thesis unfolding roundHalfEven_def Let_def by auto
next
  case False
  with assms have "\<lfloor>x\<rfloor> < \<lfloor>y\<rfloor>" using floor_mono [OF assms] by simp
  then have "roundHalfEven x \<le> \<lfloor>y\<rfloor>" using roundHalfEven_bounds(2) [of x] by simp
  moreover have "\<lfloor>y\<rfloor> \<le> roundHalfEven y" using roundHalfEven_bounds(1) [of y] by simp
  ultimately show ?thesis by simp
qed

lemma roundHalfEven_ge: "of_int k \<le> x \<Longrightarrow> k \<le> roundHalfEven x"
  using roundHalfEven_mono [of "of_int k" x] by (simp add: roundHalfEven_of_int)

lemma roundHalfEven_le: "x \<le> of_int k \<Longrightarrow> roundHalfEven x \<le> k"
  using roundHalfEven_mono [of x "of_int k"] by (simp add: roundHalfEven_of_int)

lemma powr2_int: "2 powr real_of_int e = 2 powi e" "2 powr (real_of_int e + 1) = 2 powi (e + 1)"
proof -
  show "2 powr real_of_int e = 2 powi e" by (simp add: powr_real_of_int')
  have "2 powr real_of_int (e + 1) = 2 powi (e + 1)" by (rule powr_real_of_int') simp_all
  then show "2 powr (real_of_int e + 1) = 2 powi (e + 1)" by simp
qed

lemma binade:
  assumes "0 < x"
  shows "2 powi \<lfloor>log 2 x\<rfloor> \<le> x" "x < 2 powi (\<lfloor>log 2 x\<rfloor> + 1)"
  using floor_log_eq_powr_iff [of x 2 "\<lfloor>log 2 x\<rfloor>"] assms by (simp_all add: powr2_int)

lemma binade_unique:
  assumes "2 powi e \<le> x" "x < 2 powi (e + 1)"
  shows "\<lfloor>log 2 x\<rfloor> = e"
proof -
  have "(0::real) < 2 powi e" by simp
  with assms(1) have "0 < x" by linarith
  then show ?thesis
    using floor_log_eq_powr_iff [of x 2 e] assms by (simp add: powr2_int)
qed

lemma rd_0: "rd 0 = 0"
  by (simp add: rd_def)

lemma rd_minus: "rd (- x) = - rd x"
  by (simp add: rd_def Let_def sgn_minus)

lemma rd_pos_eval:
  assumes "2 powi e \<le> x" "x < 2 powi (e + 1)"
  shows "rd x = of_int (roundHalfEven (x / 2 powi (e - 52))) * 2 powi (e - 52)"
proof -
  have "(0::real) < 2 powi e" by simp
  with assms(1) have "0 < x" by linarith
  then show ?thesis using binade_unique [OF assms] by (simp add: rd_def Let_def)
qed

lemma binade_scaled:
  "(2::real) powi e = 4503599627370496 * 2 powi (e - 52)"
  "(2::real) powi (e + 1) = 9007199254740992 * 2 powi (e - 52)"
proof -
  have "(2::real) powi (52 + (e - 52)) = 2 powi 52 * 2 powi (e - 52)"
    by (rule power_int_add) simp
  moreover have "52 + (e - 52) = e" by simp
  ultimately show "(2::real) powi e = 4503599627370496 * 2 powi (e - 52)" by simp
  have "(2::real) powi (53 + (e - 52)) = 2 powi 53 * 2 powi (e - 52)"
    by (rule power_int_add) simp
  moreover have "53 + (e - 52) = e + 1" by simp
  ultimately show "(2::real) powi (e + 1) = 9007199254740992 * 2 powi (e - 52)" by simp
qed

lemma rd_pos_range:
  assumes "2 powi e \<le> x" "x < 2 powi (e + 1)"
  shows "2 powi e \<le> rd x" "rd x \<le> 2 powi (e + 1)"
proof -
  define u :: real where "u = 2 powi (e - 52)"
  define m where "m = roundHalfEven (x / u)"
  have u: "0 < u" by (simp add: u_def)
  have lo: "2 powi e = 4503599627370496 * u" and hi: "2 powi (e + 1) = 9007199254740992 * u"
    unfolding u_def by (rule binade_scaled)+
  have rdx: "rd x = of_int m * u" unfolding m_def u_def by (rule rd_pos_eval [OF assms])
  have "4503599627370496 * u \<le> x" using assms(1) lo by simp
  then have "real_of_int 4503599627370496 \<le> x / u" using u by (simp add: pos_le_divide_eq)
  then have "4503599627370496 \<le> m" unfolding m_def by (rule roundHalfEven_ge)
  then have a: "4503599627370496 \<le> real_of_int m" by linarith
  have "x \<le> 9007199254740992 * u" using assms(2) hi by simp
  then have "x / u \<le> real_of_int 9007199254740992" using u by (simp add: pos_divide_le_eq)
  then have "m \<le> 9007199254740992" unfolding m_def by (rule roundHalfEven_le)
  then have b: "real_of_int m \<le> 9007199254740992" by linarith
  have "4503599627370496 * u \<le> real_of_int m * u" using a u by (intro mult_right_mono) simp_all
  then show "2 powi e \<le> rd x" by (simp add: rdx lo)
  have "real_of_int m * u \<le> 9007199254740992 * u" using b u by (intro mult_right_mono) simp_all
  then show "rd x \<le> 2 powi (e + 1)" by (simp add: rdx hi)
qed


lemma rd_pos: "0 < x \<Longrightarrow> 0 < rd x"
proof -
  assume x: "0 < x"
  have "(0::real) < 2 powi \<lfloor>log 2 x\<rfloor>" by simp
  also have "\<dots> \<le> rd x" using binade [OF x] by (rule rd_pos_range)
  finally show ?thesis .
qed

lemma rd_nonneg: "0 \<le> x \<Longrightarrow> 0 \<le> rd x"
  using rd_pos [of x] by (cases "x = 0") (simp_all add: rd_0 less_eq_real_def)

lemma rd_nonpos: "x \<le> 0 \<Longrightarrow> rd x \<le> 0"
  using rd_nonneg [of "- x"] by (simp add: rd_minus)

lemma rd_mono_pos:
  assumes "0 < x" "x \<le> y"
  shows "rd x \<le> rd y"
proof -
  define ex ey where "ex = \<lfloor>log 2 x\<rfloor>" and "ey = \<lfloor>log 2 y\<rfloor>"
  have y: "0 < y" using assms by simp
  have bx: "2 powi ex \<le> x" "x < 2 powi (ex + 1)" unfolding ex_def by (rule binade [OF assms(1)])+
  have bY: "2 powi ey \<le> y" "y < 2 powi (ey + 1)" unfolding ey_def by (rule binade [OF y])+
  have "log 2 x \<le> log 2 y" using assms y by simp
  then have le: "ex \<le> ey" unfolding ex_def ey_def by (rule floor_mono)
  show ?thesis
  proof (cases "ex = ey")
    case True
    define u :: real where "u = 2 powi (ey - 52)"
    have u: "0 < u" by (simp add: u_def)
    have "x / u \<le> y / u" using assms(2) u by (simp add: divide_right_mono)
    then have "roundHalfEven (x / u) \<le> roundHalfEven (y / u)" by (rule roundHalfEven_mono)
    then have "real_of_int (roundHalfEven (x / u)) \<le> real_of_int (roundHalfEven (y / u))" by simp
    then have "real_of_int (roundHalfEven (x / u)) * u \<le> real_of_int (roundHalfEven (y / u)) * u"
      using u by (intro mult_right_mono) simp_all
    then show ?thesis
      using rd_pos_eval [OF bx] rd_pos_eval [OF bY] by (simp add: True u_def)
  next
    case False
    with le have "ex + 1 \<le> ey" by simp
    then have "(2::real) powi (ex + 1) \<le> 2 powi ey" by (intro power_int_increasing) simp_all
    moreover have "rd x \<le> 2 powi (ex + 1)" using bx by (rule rd_pos_range)
    moreover have "2 powi ey \<le> rd y" using bY by (rule rd_pos_range)
    ultimately show ?thesis by linarith
  qed
qed

lemma rd_mono:
  assumes "x \<le> y"
  shows "rd x \<le> rd y"
proof -
  consider "0 < x" | "x \<le> 0" "0 \<le> y" | "y < 0" by linarith
  then show ?thesis
  proof cases
    case 1
    then show ?thesis using assms by (rule rd_mono_pos)
  next
    case 2
    then show ?thesis using rd_nonpos [of x] rd_nonneg [of y] by simp
  next
    case 3
    then have "0 < - y" "- y \<le> - x" using assms by simp_all
    then have "rd (- y) \<le> rd (- x)" by (rule rd_mono_pos)
    then show ?thesis by (simp add: rd_minus)
  qed
qed

lemma rd_error_pos:
  assumes "0 < x" "x \<le> 2 powi k"
  shows "\<bar>rd x - x\<bar> \<le> 2 powi (k - 53)"
proof -
  define e where "e = \<lfloor>log 2 x\<rfloor>"
  define u :: real where "u = 2 powi (e - 52)"
  define m where "m = roundHalfEven (x / u)"
  have u: "0 < u" by (simp add: u_def)
  have bx: "2 powi e \<le> x" "x < 2 powi (e + 1)" unfolding e_def by (rule binade [OF assms(1)])+
  have rdx: "rd x = of_int m * u" unfolding m_def u_def by (rule rd_pos_eval [OF bx])
  have "\<bar>real_of_int m - x / u\<bar> \<le> 1 / 2" unfolding m_def by (rule roundHalfEven_near)
  then have "\<bar>real_of_int m - x / u\<bar> * u \<le> 1 / 2 * u" using u by (intro mult_right_mono) simp_all
  moreover have "\<bar>real_of_int m - x / u\<bar> * u = \<bar>real_of_int m * u - x\<bar>"
  proof -
    have "(real_of_int m - x / u) * u = real_of_int m * u - x" using u by (simp add: field_simps)
    moreover have "\<bar>real_of_int m - x / u\<bar> * u = \<bar>(real_of_int m - x / u) * u\<bar>"
      using u by (simp add: abs_mult)
    ultimately show ?thesis by simp
  qed
  ultimately have err: "\<bar>rd x - x\<bar> \<le> u / 2" by (simp add: rdx)
  have "(2::real) powi e \<le> 2 powi k" using bx(1) assms(2) by linarith
  then have "e \<le> k"
  proof -
    have "(2::real) powi k < 2 powi e" if "k < e"
      using that by (intro power_int_strict_increasing) simp_all
    with \<open>(2::real) powi e \<le> 2 powi k\<close> show ?thesis by force
  qed
  then have "(2::real) powi (e - 53) \<le> 2 powi (k - 53)" by (intro power_int_increasing) simp_all
  moreover have "u / 2 = 2 powi (e - 53)"
  proof -
    have "(2::real) powi (e - 53 + 1) = 2 powi (e - 53) * 2" by (rule power_int_add_1) simp
    moreover have "e - 53 + 1 = e - 52" by simp
    ultimately show ?thesis by (simp add: u_def)
  qed
  ultimately show ?thesis using err by linarith
qed

lemma rd_error:
  assumes "\<bar>x\<bar> \<le> 2 powi k"
  shows "\<bar>rd x - x\<bar> \<le> 2 powi (k - 53)"
proof -
  consider "x = 0" | "0 < x" | "x < 0" by linarith
  then show ?thesis
  proof cases
    case 1
    then show ?thesis by (simp add: rd_0)
  next
    case 2
    then show ?thesis using assms by (intro rd_error_pos) simp_all
  next
    case 3
    then have "\<bar>rd (- x) - (- x)\<bar> \<le> 2 powi (k - 53)" using assms by (intro rd_error_pos) simp_all
    then show ?thesis by (simp add: rd_minus)
  qed
qed

lemma rd_repr_pos:
  assumes "0 < m" "m < 2 ^ 53"
  shows "rd (of_int m * 2 powi k) = of_int m * 2 powi k"
proof -
  define x :: real where "x = of_int m * 2 powi k"
  define e where "e = \<lfloor>log 2 x\<rfloor>"
  have x: "0 < x" using assms(1) by (simp add: x_def)
  have bx: "2 powi e \<le> x" "x < 2 powi (e + 1)" unfolding e_def by (rule binade [OF x])+
  have "real_of_int m < 2 ^ 53" using assms(2) by (metis of_int_less_iff of_int_numeral of_int_power)
  then have "x < 2 ^ 53 * 2 powi k" unfolding x_def by (intro mult_strict_right_mono) simp_all
  also have "\<dots> = 2 powi (53 + k)" by (simp add: power_int_add)
  finally have "(2::real) powi e < 2 powi (53 + k)" using bx(1) by linarith
  then have "e < 53 + k"
  proof -
    have "(2::real) powi (53 + k) \<le> 2 powi e" if "53 + k \<le> e"
      using that by (intro power_int_increasing) simp_all
    with \<open>(2::real) powi e < 2 powi (53 + k)\<close> show ?thesis by force
  qed
  then have n: "0 \<le> k - e + 52" by simp
  have "x / 2 powi (e - 52) = of_int m * (2 powi k / 2 powi (e - 52))" by (simp add: x_def)
  also have "2 powi k / 2 powi (e - 52) = (2::real) powi (k - (e - 52))"
    by (simp add: power_int_diff)
  also have "\<dots> = 2 ^ nat (k - e + 52)" using n by (simp add: power_int_def algebra_simps)
  finally have q: "x / 2 powi (e - 52) = of_int (m * 2 ^ nat (k - e + 52))" by simp
  have "rd x = of_int (m * 2 ^ nat (k - e + 52)) * 2 powi (e - 52)"
    unfolding rd_pos_eval [OF bx] q roundHalfEven_of_int ..
  also have "\<dots> = of_int m * (2 powi (k - e + 52) * 2 powi (e - 52))"
    using n by (simp add: power_int_def)
  also have "2 powi (k - e + 52) * 2 powi (e - 52) = (2::real) powi (k - e + 52 + (e - 52))"
    by (rule power_int_add [symmetric]) simp
  also have "k - e + 52 + (e - 52) = k" by simp
  finally show ?thesis by (simp add: x_def)
qed

lemma rd_repr:
  assumes "\<bar>m\<bar> < 2 ^ 53"
  shows "rd (of_int m * 2 powi k) = of_int m * 2 powi k"
proof -
  consider "m = 0" | "0 < m" | "m < 0" by linarith
  then show ?thesis
  proof cases
    case 1
    then show ?thesis by (simp add: rd_0)
  next
    case 2
    then show ?thesis using assms by (intro rd_repr_pos) simp_all
  next
    case 3
    then have "rd (of_int (- m) * 2 powi k) = of_int (- m) * 2 powi k"
      using assms by (intro rd_repr_pos) simp_all
    then show ?thesis using rd_minus [of "of_int m * 2 powi k"] by simp
  qed
qed

lemma rd_of_int: "\<bar>m\<bar> < 2 ^ 53 \<Longrightarrow> rd (of_int m) = of_int m"
  using rd_repr [of m 0] by simp

lemma rd_numeral: "numeral n < (2::int) ^ 53 \<Longrightarrow> rd (numeral n) = numeral n"
  using rd_of_int [of "numeral n"] by simp

lemma rd_1: "rd 1 = 1"
  using rd_of_int [of 1] by simp

lemma rd_half: "rd (1 / 2) = 1 / 2"
  using rd_repr [of 1 "- 1"] by simp

lemma rd_le_1: "x \<le> 1 \<Longrightarrow> rd x \<le> 1"
  using rd_mono [of x 1] by (simp add: rd_1)

lemma rd_unit: "0 \<le> x \<Longrightarrow> x \<le> 1 \<Longrightarrow> 0 \<le> rd x \<and> rd x \<le> 1"
  by (simp add: rd_nonneg rd_le_1)

section \<open>Background removal\<close>

lemma rd_le_fixed: "x \<le> c \<Longrightarrow> rd c = c \<Longrightarrow> rd x \<le> c"
  using rd_mono [of x c] by simp

lemma rd_ge_fixed: "c \<le> x \<Longrightarrow> rd c = c \<Longrightarrow> c \<le> rd x"
  using rd_mono [of c x] by simp

lemma sqrt_int_below:
  fixes n k :: int and c :: real
  assumes "n < k\<^sup>2" and "0 \<le> c" and "of_int (k\<^sup>2 - 1) \<le> c\<^sup>2"
  shows "sqrt (of_int n) \<le> c"
proof -
  have "n \<le> k\<^sup>2 - 1" using assms(1) by simp
  then have "real_of_int n \<le> of_int (k\<^sup>2 - 1)" by (simp only: of_int_le_iff)
  with assms(3) have "real_of_int n \<le> c\<^sup>2" by linarith
  with assms(2) show ?thesis by (intro real_le_lsqrt) simp_all
qed

lemma rd_distance_less_60:
  "rd (colorDistance c1 c2) < 60 \<longleftrightarrow> colorDistance c1 c2 < 60"
proof
  assume "rd (colorDistance c1 c2) < 60"
  show "colorDistance c1 c2 < 60"
  proof (rule ccontr)
    assume "\<not> colorDistance c1 c2 < 60"
    then have "60 \<le> colorDistance c1 c2" by simp
    then have "60 \<le> rd (colorDistance c1 c2)" by (rule rd_ge_fixed) (simp add: rd_numeral)
    with \<open>rd (colorDistance c1 c2) < 60\<close> show False by simp
  qed
next
  assume "colorDistance c1 c2 < 60"
  then have "sqDistance c1 c2 < 60\<^sup>2"
    using colorDistance_less_iff [of 60 c1 c2] by simp
  then have "colorDistance c1 c2 \<le> 64424509439 / 2 ^ 30"
    unfolding colorDistance_def by (rule sqrt_int_below) (simp_all add: power2_eq_square)
  moreover have "rd (64424509439 / 2 ^ 30) = 64424509439 / 2 ^ 30"
    using rd_repr [of 64424509439 "- 30"] by simp
  ultimately have "rd (colorDistance c1 c2) \<le> 64424509439 / 2 ^ 30" by (rule rd_le_fixed)
  then show "rd (colorDistance c1 c2) < 60" by simp
qed

lemma rd_distance_less_80:
  "rd (colorDistance c1 c2) < 80 \<longleftrightarrow> colorDistance c1 c2 < 80"
proof
  assume "rd (colorDistance c1 c2) < 80"
  show "colorDistance c1 c2 < 80"
  proof (rule ccontr)
    assume "\<not> colorDistance c1 c2 < 80"
    then have "80 \<le> colorDistance c1 c2" by simp
    then have "80 \<le> rd (colorDistance c1 c2)" by (rule rd_ge_fixed) (simp add: rd_numeral)
    with \<open>rd (colorDistance c1 c2) < 80\<close> show False by simp
  qed
next
  assume "colorDistance c1 c2 < 80"
  then have "sqDistance c1 c2 < 80\<^sup>2"
    using colorDistance_less_iff [of 80 c1 c2] by simp
  then have "colorDistance c1 c2 \<le> 85899345919 / 2 ^ 30"
    unfolding colorDistance_def by (rule sqrt_int_below) (simp_all add: power2_eq_square)
  moreover have "rd (85899345919 / 2 ^ 30) = 85899345919 / 2 ^ 30"
    using rd_repr [of 85899345919 "- 30"] by simp
  ultimately have "rd (colorDistance c1 c2) \<le> 85899345919 / 2 ^ 30" by (rule rd_le_fixed)
  then show "rd (colorDistance c1 c2) < 80" by simp
qed

lemma removeBgPass_at:
  assumes "RemoveBg \<in> set modes" and "4 * i + 3 < length d"
  shows "pixelAt (removeBgPass modes config d) i
         = removeBgPixel (bgRGB config) (replaceRGB config) (pixelAt d i)"
  using assms by (simp add: removeBgPass_def pixelAt_forEachPixel)

text \<open>The four branches of the loop body, by the exact distance.\<close>

lemma removeBgPixel_near:
  assumes "byteVal a \<noteq> 0"
    and "colorDistance \<lparr>rgb_r = byteVal r, rgb_g = byteVal g, rgb_b = byteVal b\<rparr> bg < 60"
  shows "removeBgPixel bg None (r, g, b, a) = (r, g, b, 0)"
    and "removeBgPixel bg (Some c) (r, g, b, a)
           = (toUint8Clamp (of_int (rgb_r c)), toUint8Clamp (of_int (rgb_g c)),
              toUint8Clamp (of_int (rgb_b c)), 255)"
  using assms by (simp_all add: removeBgPixel_def tolerance_def Let_def rd_distance_less_60)

lemma removeBgPixel_solid_far:
  assumes "60 \<le> colorDistance \<lparr>rgb_r = byteVal r, rgb_g = byteVal g, rgb_b = byteVal b\<rparr> bg"
  shows "removeBgPixel bg (Some c) (r, g, b, a) = (r, g, b, a)"
  using assms by (simp add: removeBgPixel_def tolerance_def Let_def rd_distance_less_60)

lemma removeBgPixel_far:
  assumes "80 \<le> colorDistance \<lparr>rgb_r = byteVal r, rgb_g = byteVal g, rgb_b = byteVal b\<rparr> bg"
  shows "removeBgPixel bg None (r, g, b, a) = (r, g, b, a)"
  using assms
  by (simp add: removeBgPixel_def tolerance_def Let_def rd_distance_less_60 rd_distance_less_80)

lemma removeBgPixel_band:
  assumes "byteVal a \<noteq> 0"
    and "dst = colorDistance \<lparr>rgb_r = byteVal r, rgb_g = byteVal g, rgb_b = byteVal b\<rparr> bg"
    and "60 \<le> dst" and "dst < 80"
  shows "removeBgPixel bg None (r, g, b, a)
           = (r, g, b, toUint8Clamp (max 0 (min 255
                (rd (real_of_int (byteVal a) * rd (rd (rd dst - 60) / 20))))))"
  using assms
  by (simp add: removeBgPixel_def tolerance_def Let_def rd_distance_less_60 rd_distance_less_80)

lemma abs_chain:
  fixes x y z a b :: real
  shows "\<bar>x - y\<bar> \<le> a \<Longrightarrow> \<bar>y - z\<bar> \<le> b \<Longrightarrow> \<bar>x - z\<bar> \<le> a + b"
  by linarith

lemma abs_chain_20:
  fixes x2 x1 f D a b c :: real
  shows "\<bar>x2 - x1 / 20\<bar> \<le> a \<Longrightarrow> \<bar>x1 - (f - 60)\<bar> \<le> b \<Longrightarrow> \<bar>f - D\<bar> \<le> c
         \<Longrightarrow> \<bar>x2 - (D - 60) / 20\<bar> \<le> a + (b + c) / 20"
proof -
  assume h: "\<bar>x2 - x1 / 20\<bar> \<le> a" "\<bar>x1 - (f - 60)\<bar> \<le> b" "\<bar>f - D\<bar> \<le> c"
  have "\<bar>x1 - (D - 60)\<bar> \<le> b + c" using h(2,3) by linarith
  then have "\<bar>x1 - (D - 60)\<bar> / 20 \<le> (b + c) / 20" by (simp add: divide_right_mono)
  moreover have "\<bar>x1 - (D - 60)\<bar> / 20 = \<bar>x1 / 20 - (D - 60) / 20\<bar>"
    by (simp add: diff_divide_distrib [symmetric])
  ultimately have "\<bar>x1 / 20 - (D - 60) / 20\<bar> \<le> (b + c) / 20" by simp
  with h(1) show ?thesis by (rule abs_chain)
qed

lemma feather_value:
  fixes D A :: real
  assumes "60 \<le> D" "D < 80" "0 \<le> A" "A \<le> 255"
  shows "0 \<le> rd (A * rd (rd (rd D - 60) / 20))"
    and "rd (A * rd (rd (rd D - 60) / 20)) \<le> 255"
    and "\<bar>rd (A * rd (rd (rd D - 60) / 20)) - A * ((D - 60) / 20)\<bar> \<le> 1 / 2 ^ 40"
proof -
  define f where "f = rd D"
  define x1 where "x1 = rd (f - 60)"
  define x2 where "x2 = rd (x1 / 20)"
  define x3 where "x3 = rd (A * x2)"
  have f: "60 \<le> f" "f \<le> 80"
    using rd_ge_fixed [of 60 D] rd_le_fixed [of D 80] assms(1,2) by (simp_all add: f_def rd_numeral)
  have ef: "\<bar>f - D\<bar> \<le> 1 / 2 ^ 46"
    using rd_error [of D 7] assms(1,2) by (simp add: f_def)
  have x1: "0 \<le> x1" "x1 \<le> 20"
    using rd_nonneg [of "f - 60"] rd_le_fixed [of "f - 60" 20] f by (simp_all add: x1_def rd_numeral)
  have e1: "\<bar>x1 - (f - 60)\<bar> \<le> 1 / 2 ^ 48"
    using rd_error [of "f - 60" 5] f by (simp add: x1_def)
  have q: "0 \<le> x1 / 20" "x1 / 20 \<le> 1" using x1 by simp_all
  have x2: "0 \<le> x2" "x2 \<le> 1" using rd_unit [OF q] by (simp_all add: x2_def)
  have e2: "\<bar>x2 - x1 / 20\<bar> \<le> 1 / 2 ^ 53"
    using rd_error [of "x1 / 20" 0] q by (simp add: x2_def)
  have prod: "0 \<le> A * x2" "A * x2 \<le> 255"
  proof -
    show "0 \<le> A * x2" using assms(3) x2(1) by (rule mult_nonneg_nonneg)
    have "A * x2 \<le> 255 * 1" using assms(3,4) x2 by (intro mult_mono) simp_all
    then show "A * x2 \<le> 255" by simp
  qed
  have x3: "0 \<le> x3" "x3 \<le> 255"
    using rd_nonneg [of "A * x2"] rd_le_fixed [of "A * x2" 255] prod
    by (simp_all add: x3_def rd_numeral)
  have e3: "\<bar>x3 - A * x2\<bar> \<le> 1 / 2 ^ 45"
    using rd_error [of "A * x2" 8] prod by (simp add: x3_def)
  have "\<bar>x2 - (D - 60) / 20\<bar> \<le> 1 / 2 ^ 53 + (1 / 2 ^ 48 + 1 / 2 ^ 46) / 20"
    using e2 e1 ef by (rule abs_chain_20)
  also have "\<dots> \<le> 1 / 2 ^ 49" by simp
  finally have e12: "\<bar>x2 - (D - 60) / 20\<bar> \<le> 1 / 2 ^ 49" .
  have "A * x2 - A * ((D - 60) / 20) = A * (x2 - (D - 60) / 20)"
    by (simp only: right_diff_distrib)
  then have "\<bar>A * x2 - A * ((D - 60) / 20)\<bar> = \<bar>A\<bar> * \<bar>x2 - (D - 60) / 20\<bar>"
    by (simp only: abs_mult)
  then have "\<bar>A * x2 - A * ((D - 60) / 20)\<bar> = A * \<bar>x2 - (D - 60) / 20\<bar>"
    using assms(3) by (simp only: abs_of_nonneg)
  also have "\<dots> \<le> 255 * (1 / 2 ^ 49)"
    using assms(3,4) e12 by (intro mult_mono) simp_all
  finally have "\<bar>A * x2 - A * ((D - 60) / 20)\<bar> \<le> 255 / 2 ^ 49" by simp
  with e3 have "\<bar>x3 - A * ((D - 60) / 20)\<bar> \<le> 1 / 2 ^ 45 + 255 / 2 ^ 49" by (rule abs_chain)
  also have "\<dots> \<le> 1 / 2 ^ 40" by simp
  finally have e: "\<bar>x3 - A * ((D - 60) / 20)\<bar> \<le> 1 / 2 ^ 40" .
  show "0 \<le> rd (A * rd (rd (rd D - 60) / 20))"
    and "rd (A * rd (rd (rd D - 60) / 20)) \<le> 255"
    and "\<bar>rd (A * rd (rd (rd D - 60) / 20)) - A * ((D - 60) / 20)\<bar> \<le> 1 / 2 ^ 40"
    using x3 e by (simp_all add: x3_def x2_def x1_def f_def)
qed

lemma feather_half:
  fixes A :: int
  assumes "0 \<le> A" "A \<le> 255"
  shows "rd (of_int A * rd (rd (rd 70 - 60) / 20)) = of_int A / 2"
proof -
  have "\<bar>A\<bar> < 2 ^ 53" using assms by simp
  from rd_repr [OF this, of "- 1"] have "rd (of_int A / 2) = of_int A / 2" by simp
  then show ?thesis by (simp add: rd_numeral rd_half)
qed

text \<open>
  Claim C3, with the alpha as the byte buffer holds it.  Background removal without a
  replacement colour, on a pixel with alpha above 0 at distance \<open>dst\<close> from the key
  colour: below 60 the alpha becomes 0 (so for a pixel equal to the key colour); from 60
  up to 80 the alpha written is the byte nearest to the product, in double arithmetic, of
  the old alpha and \<open>(dst - 60) / 20\<close>, which is within \<open>1/2 + 2^-40\<close> of the exact
  scaled value; at distance 70 it is the byte nearest to half the old alpha, a tie going
  to the even byte, so exactly half when the old alpha is even; from 80 on the pixel is
  unchanged.
\<close>

theorem removeBg_transparent_mode:
  assumes "RemoveBg \<in> set modes" and "replaceRGB config = None"
    and "4 * i + 3 < length d" and "pixelAt d i = (r, g, b, a)" and "0 < byteVal a"
    and "dst = colorDistance \<lparr>rgb_r = byteVal r, rgb_g = byteVal g, rgb_b = byteVal b\<rparr> (bgRGB config)"
  shows "(dst < 60 \<longrightarrow> pixelAt (removeBgPass modes config d) i = (r, g, b, 0))
       \<and> (\<lparr>rgb_r = byteVal r, rgb_g = byteVal g, rgb_b = byteVal b\<rparr> = bgRGB config
            \<longrightarrow> pixelAt (removeBgPass modes config d) i = (r, g, b, 0))
       \<and> (60 \<le> dst \<and> dst < 80 \<longrightarrow>
            pixelAt (removeBgPass modes config d) i
              = (r, g, b, toUint8Clamp (max 0 (min 255
                   (rd (real_of_int (byteVal a) * rd (rd (rd dst - 60) / 20))))))
            \<and> \<bar>real_of_int (byteVal (toUint8Clamp (max 0 (min 255
                   (rd (real_of_int (byteVal a) * rd (rd (rd dst - 60) / 20)))))))
                 - real_of_int (byteVal a) * ((dst - 60) / 20)\<bar> \<le> 1 / 2 + 1 / 2 ^ 40)
       \<and> (dst = 70 \<longrightarrow>
            pixelAt (removeBgPass modes config d) i
              = (r, g, b, toUint8Clamp (real_of_int (byteVal a) / 2))
            \<and> \<bar>real_of_int (byteVal (toUint8Clamp (real_of_int (byteVal a) / 2)))
                 - real_of_int (byteVal a) / 2\<bar> \<le> 1 / 2
            \<and> (even (byteVal a) \<longrightarrow>
                 2 * byteVal (toUint8Clamp (real_of_int (byteVal a) / 2)) = byteVal a))
       \<and> (80 \<le> dst \<longrightarrow> pixelAt (removeBgPass modes config d) i = (r, g, b, a))"
proof -
  let ?out = "pixelAt (removeBgPass modes config d) i"
  let ?x = "rd (real_of_int (byteVal a) * rd (rd (rd dst - 60) / 20))"
  have out: "?out = removeBgPixel (bgRGB config) None (r, g, b, a)"
    using removeBgPass_at [OF assms(1) assms(3)] assms(2) assms(4) by simp
  have a_pos: "byteVal a \<noteq> 0" using assms(5) by simp
  have a_hi: "real_of_int (byteVal a) \<le> 255" using byteVal_range(2) [of a] by simp
  have a_lo: "0 \<le> real_of_int (byteVal a)" using byteVal_range(1) [of a] by simp
  have near: "?out = (r, g, b, 0)" if "dst < 60"
    unfolding out using a_pos that [unfolded assms(6)] by (rule removeBgPixel_near(1))
  have same: "?out = (r, g, b, 0)"
    if "\<lparr>rgb_r = byteVal r, rgb_g = byteVal g, rgb_b = byteVal b\<rparr> = bgRGB config"
  proof -
    from that have "dst = 0" by (simp add: assms(6) colorDistance_self)
    then show ?thesis by (simp add: near)
  qed
  have band: "?out = (r, g, b, toUint8Clamp (max 0 (min 255 ?x)))" if "60 \<le> dst" "dst < 80"
    unfolding out using a_pos assms(6) that by (rule removeBgPixel_band)
  have round: "\<bar>real_of_int (byteVal (toUint8Clamp (max 0 (min 255 ?x))))
                 - real_of_int (byteVal a) * ((dst - 60) / 20)\<bar> \<le> 1 / 2 + 1 / 2 ^ 40"
    if "60 \<le> dst" "dst < 80"
  proof -
    note v = feather_value [OF that a_lo a_hi]
    from v(1,2) have "max 0 (min 255 ?x) = ?x" by simp
    moreover have "\<bar>real_of_int (byteVal (toUint8Clamp ?x)) - ?x\<bar> \<le> 1 / 2"
      using v(1,2) by (rule toUint8Clamp_near)
    ultimately have "\<bar>real_of_int (byteVal (toUint8Clamp (max 0 (min 255 ?x)))) - ?x\<bar> \<le> 1 / 2"
      by simp
    then show ?thesis using v(3) by (rule abs_chain)
  qed
  have half: "?out = (r, g, b, toUint8Clamp (real_of_int (byteVal a) / 2))
      \<and> \<bar>real_of_int (byteVal (toUint8Clamp (real_of_int (byteVal a) / 2)))
           - real_of_int (byteVal a) / 2\<bar> \<le> 1 / 2
      \<and> (even (byteVal a) \<longrightarrow>
           2 * byteVal (toUint8Clamp (real_of_int (byteVal a) / 2)) = byteVal a)"
    if "dst = 70"
  proof -
    have x: "?x = real_of_int (byteVal a) / 2"
      unfolding that using byteVal_range [of a] by (intro feather_half) simp_all
    have in_range: "0 \<le> real_of_int (byteVal a) / 2" "real_of_int (byteVal a) / 2 \<le> 255"
      using a_lo a_hi by simp_all
    have "60 \<le> dst" "dst < 80" using that by simp_all
    from band [OF this] have "?out = (r, g, b, toUint8Clamp (real_of_int (byteVal a) / 2))"
      unfolding x using in_range by simp
    moreover have "\<bar>real_of_int (byteVal (toUint8Clamp (real_of_int (byteVal a) / 2)))
           - real_of_int (byteVal a) / 2\<bar> \<le> 1 / 2"
      using in_range by (rule toUint8Clamp_near)
    moreover have "2 * byteVal (toUint8Clamp (real_of_int (byteVal a) / 2)) = byteVal a"
      if "even (byteVal a)"
      using toUint8Clamp_half_even [OF that] that by simp
    ultimately show ?thesis by simp
  qed
  have far: "?out = (r, g, b, a)" if "80 \<le> dst"
    unfolding out using that [unfolded assms(6)] by (rule removeBgPixel_far)
  from near same band round half far show ?thesis by blast
qed

lemma hexToRgb_green: "hexToRgb ''#00FF00'' = Some \<lparr>rgb_r = 0, rgb_g = 255, rgb_b = 0\<rparr>"
  by (simp add: hexToRgb_def parseHexPair_def hexDigit_def)

lemma hexToRgb_blue: "hexToRgb ''#0000FF'' = Some \<lparr>rgb_r = 0, rgb_g = 0, rgb_b = 255\<rparr>"
  by (simp add: hexToRgb_def parseHexPair_def hexDigit_def)

lemma bgRGB_keyOutGreen: "bgRGB keyOutGreen = \<lparr>rgb_r = 0, rgb_g = 255, rgb_b = 0\<rparr>"
  by (simp add: bgRGB_def keyOutGreen_def hexToRgb_green)

lemma replaceRGB_keyOutGreen: "replaceRGB keyOutGreen = None"
  by (simp add: replaceRGB_def keyOutGreen_def)

text \<open>
  The feather at distance 67 on alpha 90: \<open>7 / 20\<close> rounds down to a double below 0.35,
  the product with 90 rounds to a double below 31.5, and 31 is stored.
\<close>

lemma rd_7_20: "rd (7 / 20) = 6305039478318694 / 2 ^ 54"
  using rd_pos_eval [of "- 2" "7 / 20"] by (simp add: roundHalfEven_def)

lemma feather_67_90:
  "toUint8Clamp (max 0 (min 255 (rd (real_of_int (byteVal 90) * rd (rd (rd 67 - 60) / 20))))) = 31"
proof -
  have "rd (90 * (6305039478318694 / 2 ^ 54)) = 8866461766385663 / 2 ^ 48"
    using rd_pos_eval [of 4 "90 * (6305039478318694 / 2 ^ 54)"] by (simp add: roundHalfEven_def)
  then have v: "rd (real_of_int (byteVal 90) * rd (rd (rd 67 - 60) / 20)) = 8866461766385663 / 2 ^ 48"
    by (simp add: byteVal_def rd_numeral rd_7_20)
  show ?thesis unfolding v by (simp add: toUint8Clamp_def)
qed

text \<open>
  With the key colour green: a green pixel becomes transparent; the pixel (70,255,0) at
  distance 70 with alpha 200 gets alpha 100; the pixel (80,255,0) at distance 80 stays;
  the pixel (0,255,67) at distance 67 with alpha 90 gets alpha 31.
\<close>

theorem removeBg_transparent_mode_witness:
  "pixelAt (removeBgPass [RemoveBg] keyOutGreen
      [0, 255, 0, 255, 70, 255, 0, 200, 80, 255, 0, 77, 0, 255, 67, 90]) 0 = (0, 255, 0, 0)
   \<and> pixelAt (removeBgPass [RemoveBg] keyOutGreen
      [0, 255, 0, 255, 70, 255, 0, 200, 80, 255, 0, 77, 0, 255, 67, 90]) 1 = (70, 255, 0, 100)
   \<and> pixelAt (removeBgPass [RemoveBg] keyOutGreen
      [0, 255, 0, 255, 70, 255, 0, 200, 80, 255, 0, 77, 0, 255, 67, 90]) 2 = (80, 255, 0, 77)
   \<and> pixelAt (removeBgPass [RemoveBg] keyOutGreen
      [0, 255, 0, 255, 70, 255, 0, 200, 80, 255, 0, 77, 0, 255, 67, 90]) 3 = (0, 255, 67, 31)"
proof -
  let ?d = "[0, 255, 0, 255, 70, 255, 0, 200, 80, 255, 0, 77, 0, 255, 67, 90] :: byte list"
  let ?out = "removeBgPass [RemoveBg] keyOutGreen ?d"
  have m: "RemoveBg \<in> set [RemoveBg]" by simp
  note t = replaceRGB_keyOutGreen
  have i0: "4 * 0 + 3 < length ?d" "pixelAt ?d 0 = (0, 255, 0, 255)" "0 < byteVal (255 :: byte)"
    by (simp_all add: pixelAt_def byteVal_def)
  have i1: "4 * 1 + 3 < length ?d" "pixelAt ?d 1 = (70, 255, 0, 200)" "0 < byteVal (200 :: byte)"
    by (simp_all add: pixelAt_def byteVal_def)
  have i2: "4 * 2 + 3 < length ?d" "pixelAt ?d 2 = (80, 255, 0, 77)" "0 < byteVal (77 :: byte)"
    by (simp_all add: pixelAt_def byteVal_def)
  have i3: "4 * 3 + 3 < length ?d" "pixelAt ?d 3 = (0, 255, 67, 90)" "0 < byteVal (90 :: byte)"
    by (simp_all add: pixelAt_def byteVal_def)
  have d0: "0 = colorDistance \<lparr>rgb_r = byteVal 0, rgb_g = byteVal 255, rgb_b = byteVal 0\<rparr> (bgRGB keyOutGreen)"
    by (simp add: bgRGB_keyOutGreen byteVal_def colorDistance_def sqDistance_def)
  have d1: "70 = colorDistance \<lparr>rgb_r = byteVal 70, rgb_g = byteVal 255, rgb_b = byteVal 0\<rparr> (bgRGB keyOutGreen)"
    by (rule colorDistance_eqI [symmetric])
       (simp_all add: bgRGB_keyOutGreen byteVal_def sqDistance_def)
  have d2: "80 = colorDistance \<lparr>rgb_r = byteVal 80, rgb_g = byteVal 255, rgb_b = byteVal 0\<rparr> (bgRGB keyOutGreen)"
    by (rule colorDistance_eqI [symmetric])
       (simp_all add: bgRGB_keyOutGreen byteVal_def sqDistance_def)
  have d3: "67 = colorDistance \<lparr>rgb_r = byteVal 0, rgb_g = byteVal 255, rgb_b = byteVal 67\<rparr> (bgRGB keyOutGreen)"
    by (rule colorDistance_eqI [symmetric])
       (simp_all add: bgRGB_keyOutGreen byteVal_def sqDistance_def)
  have half: "toUint8Clamp (real_of_int (byteVal (200 :: byte)) / 2) = 100"
    by (simp add: byteVal_def toUint8Clamp_def)
  from removeBg_transparent_mode [OF m t i0 d0]
  have "pixelAt ?out 0 = (0, 255, 0, 0)" by simp
  moreover from removeBg_transparent_mode [OF m t i1 d1]
  have "pixelAt ?out 1 = (70, 255, 0, toUint8Clamp (real_of_int (byteVal (200 :: byte)) / 2))"
    by blast
  then have "pixelAt ?out 1 = (70, 255, 0, 100)" by (simp only: half)
  moreover from removeBg_transparent_mode [OF m t i2 d2]
  have "pixelAt ?out 2 = (80, 255, 0, 77)" by simp
  moreover from removeBg_transparent_mode [OF m t i3 d3]
  have "pixelAt ?out 3 = (0, 255, 67, toUint8Clamp (max 0 (min 255
      (rd (real_of_int (byteVal 90) * rd (rd (rd 67 - 60) / 20))))))"
    by simp
  then have "pixelAt ?out 3 = (0, 255, 67, 31)" by (simp only: feather_67_90)
  ultimately show ?thesis by simp
qed

text \<open>
  Claim C3 as stated fails at distance 70 for an odd alpha: the pixel (70,255,0) with
  alpha 255 gets alpha 128, which is not half of 255.
\<close>

theorem removeBg_half_alpha_counterexample:
  "colorDistance \<lparr>rgb_r = byteVal 70, rgb_g = byteVal 255, rgb_b = byteVal 0\<rparr> (bgRGB keyOutGreen) = 70
   \<and> pixelAt (removeBgPass [RemoveBg] keyOutGreen [70, 255, 0, 255]) 0 = (70, 255, 0, 128)
   \<and> real_of_int (byteVal 128) \<noteq> real_of_int (byteVal 255) / 2"
proof -
  let ?d = "[70, 255, 0, 255] :: byte list"
  have dst: "colorDistance \<lparr>rgb_r = byteVal 70, rgb_g = byteVal 255, rgb_b = byteVal 0\<rparr>
      (bgRGB keyOutGreen) = 70"
    by (rule colorDistance_eqI) (simp_all add: bgRGB_keyOutGreen byteVal_def sqDistance_def)
  have a: "byteVal (255 :: byte) \<noteq> 0" by (simp add: byteVal_def)
  have "pixelAt (removeBgPass [RemoveBg] keyOutGreen ?d) 0
      = removeBgPixel (bgRGB keyOutGreen) None (70, 255, 0, 255)"
    using removeBgPass_at [of "[RemoveBg]" 0 ?d keyOutGreen]
    by (simp add: replaceRGB_keyOutGreen pixelAt_def)
  also have "\<dots> = (70, 255, 0, toUint8Clamp (max 0 (min 255
      (rd (real_of_int (byteVal 255) * rd (rd (rd 70 - 60) / 20))))))"
    using a dst [symmetric] by (rule removeBgPixel_band) simp_all
  also have "rd (real_of_int (byteVal 255) * rd (rd (rd 70 - 60) / 20)) = real_of_int (byteVal 255) / 2"
    by (rule feather_half) (simp_all add: byteVal_def)
  also have "toUint8Clamp (max 0 (min 255 (real_of_int (byteVal 255) / 2))) = 128"
    by (simp add: byteVal_def toUint8Clamp_def)
  finally have "pixelAt (removeBgPass [RemoveBg] keyOutGreen ?d) 0 = (70, 255, 0, 128)" .
  with dst show ?thesis by (simp add: byteVal_def)
qed

text \<open>
  Claim C4.  Background removal with a replacement colour, on a pixel with alpha above 0:
  at a distance below 60 from the key colour the pixel ends with exactly the replacement
  red, green and blue and alpha 255; at any distance from 60 on, so at 70, it is left
  unchanged: there is no feathering band.
\<close>

theorem removeBg_solid_mode:
  assumes "RemoveBg \<in> set modes" and "replaceRGB config = Some c"
    and "4 * i + 3 < length d" and "pixelAt d i = (r, g, b, a)" and "0 < byteVal a"
    and "dst = colorDistance \<lparr>rgb_r = byteVal r, rgb_g = byteVal g, rgb_b = byteVal b\<rparr> (bgRGB config)"
  shows "(dst < 60 \<longrightarrow>
            pixelAt (removeBgPass modes config d) i
              = (of_int (rgb_r c), of_int (rgb_g c), of_int (rgb_b c), 255)
            \<and> byteVal (of_int (rgb_r c)) = rgb_r c
            \<and> byteVal (of_int (rgb_g c)) = rgb_g c
            \<and> byteVal (of_int (rgb_b c)) = rgb_b c)
       \<and> (60 \<le> dst \<longrightarrow> pixelAt (removeBgPass modes config d) i = (r, g, b, a))
       \<and> (dst = 70 \<longrightarrow> pixelAt (removeBgPass modes config d) i = (r, g, b, a))"
proof -
  let ?out = "pixelAt (removeBgPass modes config d) i"
  have out: "?out = removeBgPixel (bgRGB config) (Some c) (r, g, b, a)"
    using removeBgPass_at [OF assms(1) assms(3)] assms(2) assms(4) by simp
  have a_pos: "byteVal a \<noteq> 0" using assms(5) by simp
  obtain hex where "hexToRgb hex = Some c"
    using assms(2) by (auto simp: replaceRGB_def split: option.splits if_splits)
  then have c: "0 \<le> rgb_r c" "rgb_r c \<le> 255" "0 \<le> rgb_g c" "rgb_g c \<le> 255"
    "0 \<le> rgb_b c" "rgb_b c \<le> 255"
    using hexToRgb_range by blast+
  have fill: "?out = (of_int (rgb_r c), of_int (rgb_g c), of_int (rgb_b c), 255)" if "dst < 60"
    using removeBgPixel_near(2) [OF a_pos that [unfolded assms(6)], of c] c
    by (simp add: out toUint8Clamp_of_int_word)
  have keep: "?out = (r, g, b, a)" if "60 \<le> dst"
    unfolding out using that [unfolded assms(6)] by (rule removeBgPixel_solid_far)
  from fill keep c show ?thesis by (simp add: byteVal_of_int)
qed

text \<open>
  Key colour green, replacement blue: the pixel (10,250,0) becomes opaque blue, the pixel
  at distance 70 keeps its colour and its alpha 200.
\<close>

theorem removeBg_solid_mode_witness:
  "pixelAt (removeBgPass [RemoveBg] greenToBlue [10, 250, 0, 128, 70, 255, 0, 200]) 0 = (0, 0, 255, 255)
   \<and> pixelAt (removeBgPass [RemoveBg] greenToBlue [10, 250, 0, 128, 70, 255, 0, 200]) 1 = (70, 255, 0, 200)"
proof -
  let ?d = "[10, 250, 0, 128, 70, 255, 0, 200] :: byte list"
  let ?c = "\<lparr>rgb_r = 0, rgb_g = 0, rgb_b = 255\<rparr>"
  let ?out = "removeBgPass [RemoveBg] greenToBlue ?d"
  have m: "RemoveBg \<in> set [RemoveBg]" by simp
  have t: "replaceRGB greenToBlue = Some ?c"
    by (simp add: replaceRGB_def greenToBlue_def hexToRgb_blue)
  have bg: "bgRGB greenToBlue = \<lparr>rgb_r = 0, rgb_g = 255, rgb_b = 0\<rparr>"
    by (simp add: bgRGB_def greenToBlue_def hexToRgb_green)
  have i0: "4 * 0 + 3 < length ?d" "pixelAt ?d 0 = (10, 250, 0, 128)" "0 < byteVal (128 :: byte)"
    by (simp_all add: pixelAt_def byteVal_def)
  have i1: "4 * 1 + 3 < length ?d" "pixelAt ?d 1 = (70, 255, 0, 200)" "0 < byteVal (200 :: byte)"
    by (simp_all add: pixelAt_def byteVal_def)
  have d0: "colorDistance \<lparr>rgb_r = byteVal 10, rgb_g = byteVal 250, rgb_b = byteVal 0\<rparr> (bgRGB greenToBlue) < 60"
    by (simp add: bg byteVal_def colorDistance_less_iff sqDistance_def)
  have d1: "70 = colorDistance \<lparr>rgb_r = byteVal 70, rgb_g = byteVal 255, rgb_b = byteVal 0\<rparr> (bgRGB greenToBlue)"
    by (rule colorDistance_eqI [symmetric]) (simp_all add: bg byteVal_def sqDistance_def)
  from removeBg_solid_mode [OF m t i0 refl] d0
  have "pixelAt ?out 0 = (0, 0, 255, 255)" by simp
  moreover from removeBg_solid_mode [OF m t i1 d1]
  have "pixelAt ?out 1 = (70, 255, 0, 200)" by simp
  ultimately show ?thesis by simp
qed

section \<open>The colour written for a matched pixel\<close>

lemma unit_fraction:
  fixes x y :: real
  assumes "0 \<le> x" "x \<le> y" "0 < y"
  shows "0 \<le> x / y \<and> x / y \<le> 1"
  using assms by simp

lemma rd_2: "rd 2 = 2"
  by (simp add: rd_numeral)

lemma rd_neg_1: "rd (- 1) = - 1"
  by (simp add: rd_minus rd_1)

lemma rd_quotient:
  fixes x d :: real
  assumes "0 < d" "- d \<le> x" "x \<le> d"
  shows "- 1 \<le> rd (x / d)" and "rd (x / d) \<le> 1"
    and "x \<le> 0 \<Longrightarrow> rd (x / d) \<le> 0" and "0 \<le> x \<Longrightarrow> 0 \<le> rd (x / d)"
proof -
  have q: "- 1 \<le> x / d" "x / d \<le> 1" using assms by (simp_all add: field_simps)
  show "- 1 \<le> rd (x / d)" using q(1) rd_neg_1 by (rule rd_ge_fixed)
  show "rd (x / d) \<le> 1" using q(2) by (rule rd_le_1)
  show "rd (x / d) \<le> 0" if "x \<le> 0"
    using that assms(1) by (intro rd_nonpos) (simp add: divide_nonpos_pos)
  show "0 \<le> rd (x / d)" if "0 \<le> x"
    using that assms(1) by (intro rd_nonneg) simp
qed

lemma rd_sixth: "0 \<le> h \<Longrightarrow> h \<le> 6 \<Longrightarrow> 0 \<le> rd (h / 6) \<and> rd (h / 6) \<le> 1"
  by (intro rd_unit) simp_all

lemma rgbToHsl_range:
  assumes "0 \<le> r0" "r0 \<le> 255" "0 \<le> g0" "g0 \<le> 255" "0 \<le> b0" "b0 \<le> 255"
    and "rgbToHsl r0 g0 b0 = (h, s, l)"
  shows "0 \<le> h \<and> h \<le> 1 \<and> 0 \<le> s \<and> s \<le> 1 \<and> 0 \<le> l \<and> l \<le> 1"
proof -
  define r g b where "r = rd (r0 / 255)" and "g = rd (g0 / 255)" and "b = rd (b0 / 255)"
  define mx mn where "mx = max (max r g) b" and "mn = min (min r g) b"
  define d where "d = rd (mx - mn)"
  have ch: "0 \<le> r" "r \<le> 1" "0 \<le> g" "g \<le> 1" "0 \<le> b" "b \<le> 1"
    using assms(1-6) rd_unit [of "r0 / 255"] rd_unit [of "g0 / 255"] rd_unit [of "b0 / 255"]
    by (simp_all add: r_def g_def b_def)
  have mm: "0 \<le> mn" "mx \<le> 1" "mn \<le> r" "mn \<le> g" "mn \<le> b" "r \<le> mx" "g \<le> mx" "b \<le> mx"
    using ch by (simp_all add: mx_def mn_def)
  note eq = assms(7) [unfolded rgbToHsl_def Let_def, folded r_def g_def b_def,
      folded mx_def mn_def, folded d_def]
  have sum: "0 \<le> rd (mx + mn)" "rd (mx + mn) \<le> 2"
    using mm rd_nonneg [of "mx + mn"] rd_le_fixed [of "mx + mn" 2] by (simp_all add: rd_2)
  have l: "l = rd (rd (mx + mn) / 2)" using eq by (simp split: if_splits)
  have lr: "0 \<le> l \<and> l \<le> 1" unfolding l using sum by (intro rd_unit) simp_all
  show ?thesis
  proof (cases "mx = mn")
    case True
    then have "h = 0" "s = 0" using eq by simp_all
    with lr show ?thesis by simp
  next
    case False
    then have "0 < mx - mn" using mm by simp
    then have d: "0 < d" unfolding d_def by (rule rd_pos)
    have s: "s = (if l > 1 / 2 then rd (d / rd (rd (2 - mx) - mn)) else rd (d / rd (mx + mn)))"
      using eq False by (simp add: l)
    have h: "h = rd ((if mx = r then rd (rd (rd (g - b) / d) + (if g < b then 6 else 0))
                     else if mx = g then rd (rd (rd (b - r) / d) + 2)
                     else if mx = b then rd (rd (rd (r - g) / d) + 4)
                     else 0) / 6)"
      using eq False by simp
    have sr: "0 \<le> s \<and> s \<le> 1"
    proof (cases "l > 1 / 2")
      case True
      have "1 \<le> rd (2 - mx)" using mm(2) by (intro rd_ge_fixed) (simp_all add: rd_1)
      then have "mx - mn \<le> rd (2 - mx) - mn" using mm(2) by simp
      then have "d \<le> rd (rd (2 - mx) - mn)" unfolding d_def by (rule rd_mono)
      with d have "0 \<le> d / rd (rd (2 - mx) - mn) \<and> d / rd (rd (2 - mx) - mn) \<le> 1"
        by (intro unit_fraction) simp_all
      then show ?thesis using s True by (simp add: rd_unit)
    next
      case False
      have "mx - mn \<le> mx + mn" using mm(1) by simp
      then have "d \<le> rd (mx + mn)" unfolding d_def by (rule rd_mono)
      with d have "0 \<le> d / rd (mx + mn) \<and> d / rd (mx + mn) \<le> 1"
        by (intro unit_fraction) simp_all
      then show ?thesis using s False by (simp add: rd_unit)
    qed
    have span: "- d \<le> rd (x - y) \<and> rd (x - y) \<le> d"
      if "mn \<le> x" "x \<le> mx" "mn \<le> y" "y \<le> mx" for x y
    proof -
      have "x - y \<le> mx - mn" "- (mx - mn) \<le> x - y" using that by simp_all
      then have "rd (x - y) \<le> rd (mx - mn)" "rd (- (mx - mn)) \<le> rd (x - y)"
        by (intro rd_mono; simp)+
      then show ?thesis unfolding rd_minus d_def by simp
    qed
    note gb = rd_quotient [OF d, of "rd (g - b)"] span [of g b]
    note br = rd_quotient [OF d, of "rd (b - r)"] span [of b r]
    note rg = rd_quotient [OF d, of "rd (r - g)"] span [of r g]
    have c1: "0 \<le> rd (rd (rd (g - b) / d) + (if g < b then 6 else 0))
            \<and> rd (rd (rd (g - b) / d) + (if g < b then 6 else 0)) \<le> 6"
    proof (cases "g < b")
      case True
      then have "rd (g - b) \<le> 0" by (intro rd_nonpos) simp
      then have "rd (rd (g - b) / d) \<le> 0" "- 1 \<le> rd (rd (g - b) / d)"
        using gb mm by simp_all
      then have "0 \<le> rd (rd (g - b) / d) + 6" "rd (rd (g - b) / d) + 6 \<le> 6" by simp_all
      then have "0 \<le> rd (rd (rd (g - b) / d) + 6)" "rd (rd (rd (g - b) / d) + 6) \<le> 6"
        by (simp_all add: rd_nonneg rd_le_fixed rd_numeral)
      with True show ?thesis by simp
    next
      case False
      then have "0 \<le> rd (g - b)" by (intro rd_nonneg) simp
      then have x: "0 \<le> rd (rd (g - b) / d)" "rd (rd (g - b) / d) \<le> 1"
        using gb mm by simp_all
      then have "0 \<le> rd (rd (rd (g - b) / d))" "rd (rd (rd (g - b) / d)) \<le> 1"
        by (simp_all add: rd_nonneg rd_le_1)
      with False show ?thesis by simp
    qed
    have c2: "0 \<le> rd (rd (rd (b - r) / d) + 2) \<and> rd (rd (rd (b - r) / d) + 2) \<le> 6"
    proof -
      have "- 1 \<le> rd (rd (b - r) / d)" "rd (rd (b - r) / d) \<le> 1" using br mm by simp_all
      then have "0 \<le> rd (rd (b - r) / d) + 2" "rd (rd (b - r) / d) + 2 \<le> 6" by simp_all
      then show ?thesis by (simp add: rd_nonneg rd_le_fixed rd_numeral)
    qed
    have c3: "0 \<le> rd (rd (rd (r - g) / d) + 4) \<and> rd (rd (rd (r - g) / d) + 4) \<le> 6"
    proof -
      have "- 1 \<le> rd (rd (r - g) / d)" "rd (rd (r - g) / d) \<le> 1" using rg mm by simp_all
      then have "0 \<le> rd (rd (r - g) / d) + 4" "rd (rd (r - g) / d) + 4 \<le> 6" by simp_all
      then show ?thesis by (simp add: rd_nonneg rd_le_fixed rd_numeral)
    qed
    have hr: "0 \<le> h \<and> h \<le> 1"
      unfolding h using c1 c2 c3 by (auto intro!: rd_sixth [THEN conjunct1] rd_sixth [THEN conjunct2] simp: rd_0)
    from hr sr lr show ?thesis by simp
  qed
qed

lemma rd_sixth_val: "rd (1 / 6) = 6004799503160661 / 2 ^ 55"
  using rd_pos_eval [of "- 3" "1 / 6"] by (simp add: roundHalfEven_def)

lemma rd_third_val: "rd (1 / 3) = 6004799503160661 / 2 ^ 54"
  using rd_pos_eval [of "- 2" "1 / 3"] by (simp add: roundHalfEven_def)

lemma rd_two_thirds_val: "rd (2 / 3) = 6004799503160661 / 2 ^ 53"
  using rd_pos_eval [of "- 1" "2 / 3"] by (simp add: roundHalfEven_def)

text \<open>A point between \<open>p\<close> and \<open>q\<close>, computed with small errors.\<close>

lemma between:
  fixes p q c lo hi :: real
  assumes "lo \<le> p" "p \<le> hi" "lo \<le> q" "q \<le> hi" "0 \<le> c" "c \<le> 1"
  shows "lo \<le> p + (q - p) * c" and "p + (q - p) * c \<le> hi"
proof -
  have eq: "p + (q - p) * c = (1 - c) * p + c * q" by (simp add: algebra_simps)
  have "(1 - c) * lo \<le> (1 - c) * p" "c * lo \<le> c * q"
    using assms by (simp_all add: mult_left_mono)
  then have "(1 - c) * lo + c * lo \<le> (1 - c) * p + c * q" by linarith
  then show "lo \<le> p + (q - p) * c" by (simp add: eq algebra_simps)
  have "(1 - c) * p \<le> (1 - c) * hi" "c * q \<le> c * hi"
    using assms by (simp_all add: mult_left_mono)
  then have "(1 - c) * p + c * q \<le> (1 - c) * hi + c * hi" by linarith
  then show "p + (q - p) * c \<le> hi" by (simp add: eq algebra_simps)
qed

lemma interp_bound:
  fixes p q c w R lo hi e e' :: real
  assumes "lo \<le> p" "p \<le> hi" "lo \<le> q" "q \<le> hi" "0 \<le> c" "c \<le> 1"
    and "\<bar>w - (q - p) * c\<bar> \<le> e" and "\<bar>R - (p + w)\<bar> \<le> e'"
  shows "lo - e - e' \<le> R" and "R \<le> hi + e + e'"
proof -
  note b = between [OF assms(1-6)]
  show "lo - e - e' \<le> R" using b(1) assms(7,8) by linarith
  show "R \<le> hi + e + e'" using b(2) assms(7,8) by linarith
qed

lemma abs_mult_le:
  fixes x y a b :: real
  shows "\<bar>x\<bar> \<le> a \<Longrightarrow> \<bar>y\<bar> \<le> b \<Longrightarrow> \<bar>x * y\<bar> \<le> a * b"
  by (simp add: abs_mult mult_mono)

text \<open>The difference \<open>q - p\<close> as computed.\<close>

lemma delta_bound:
  fixes p q :: real
  assumes "- (1 / 2 ^ 48) \<le> p" "p \<le> 1 + 1 / 2 ^ 48" "- (1 / 2 ^ 48) \<le> q" "q \<le> 1 + 1 / 2 ^ 48"
  shows "\<bar>rd (q - p) - (q - p)\<bar> \<le> 1 / 2 ^ 52" and "\<bar>rd (q - p)\<bar> \<le> 5 / 4"
proof -
  have c: "- (1 / 16) \<le> p" "p \<le> 17 / 16" "- (1 / 16) \<le> q" "q \<le> 17 / 16"
    using assms by simp_all
  then have w: "\<bar>q - p\<bar> \<le> 9 / 8" by linarith
  then have "\<bar>q - p\<bar> \<le> 2 powi 1" by simp
  from rd_error [OF this] show e: "\<bar>rd (q - p) - (q - p)\<bar> \<le> 1 / 2 ^ 52" by simp
  then have "\<bar>rd (q - p) - (q - p)\<bar> \<le> 1 / 8" by simp
  with w show "\<bar>rd (q - p)\<bar> \<le> 5 / 4" by linarith
qed

lemma abs_scaled:
  fixes a t e :: real
  assumes "\<bar>a\<bar> \<le> e" "0 \<le> t" "t \<le> 1"
  shows "\<bar>a * t\<bar> \<le> e"
proof -
  have "\<bar>a * t\<bar> = \<bar>a\<bar> * t" using assms(2) by (simp add: abs_mult)
  also have "\<dots> \<le> \<bar>a\<bar> * 1" using assms(3) by (intro mult_left_mono) simp_all
  finally show ?thesis using assms(1) by simp
qed

lemma abs_times_6:
  fixes a e :: real
  shows "\<bar>a\<bar> \<le> e \<Longrightarrow> \<bar>a * 6\<bar> \<le> e * 6"
  by (simp add: abs_mult)

lemma three_errors:
  fixes a b c x y z :: real
  shows "\<bar>a\<bar> \<le> x \<Longrightarrow> \<bar>b\<bar> \<le> y \<Longrightarrow> \<bar>c\<bar> \<le> z \<Longrightarrow> \<bar>a + b + c\<bar> \<le> x + y + z"
  by linarith

text \<open>The first interpolation of \<open>hue2rgb\<close>: \<open>p + (q - p) * 6 * t\<close> for \<open>t < 1 / 6\<close>.\<close>

lemma rising_edge:
  fixes p q t :: real
  assumes "- (1 / 2 ^ 48) \<le> p" "p \<le> 1 + 1 / 2 ^ 48" "- (1 / 2 ^ 48) \<le> q" "q \<le> 1 + 1 / 2 ^ 48"
    and "0 \<le> t" "t < rd (1 / 6)"
  shows "- (1 / 2 ^ 46) \<le> rd (p + rd (rd (rd (q - p) * 6) * t))"
    and "rd (p + rd (rd (rd (q - p) * 6) * t)) \<le> 1 + 1 / 2 ^ 46"
proof -
  define dl where "dl = rd (q - p)"
  define Y where "Y = rd (dl * 6)"
  define w where "w = rd (Y * t)"
  define R where "R = rd (p + w)"
  have t: "0 \<le> t" "t \<le> 1" "0 \<le> 6 * t" "6 * t \<le> 1"
    using assms(5,6) by (simp_all add: rd_sixth_val)
  have c: "- (1 / 16) \<le> p" "p \<le> 17 / 16" "- (1 / 16) \<le> q" "q \<le> 17 / 16"
    using assms(1-4) by simp_all
  have d1: "\<bar>dl - (q - p)\<bar> \<le> 1 / 2 ^ 52" and d2: "\<bar>dl\<bar> \<le> 5 / 4"
    unfolding dl_def by (rule delta_bound [OF assms(1-4)])+
  have "\<bar>dl * 6\<bar> \<le> 2 powi 3" using d2 by simp
  from rd_error [OF this] have y1: "\<bar>Y - dl * 6\<bar> \<le> 1 / 2 ^ 50" by (simp add: Y_def)
  then have "\<bar>Y - dl * 6\<bar> \<le> 1 / 2" by simp
  with d2 have y2: "\<bar>Y\<bar> \<le> 8" by linarith
  have "\<bar>Y * t\<bar> \<le> 8" using y2 t(1,2) by (rule abs_scaled)
  then have "\<bar>Y * t\<bar> \<le> 2 powi 3" by simp
  from rd_error [OF this] have w1: "\<bar>w - Y * t\<bar> \<le> 1 / 2 ^ 50" by (simp add: w_def)
  have ea: "\<bar>(Y - dl * 6) * t\<bar> \<le> 1 / 2 ^ 50" using y1 t(1,2) by (rule abs_scaled)
  have "\<bar>(dl - (q - p)) * 6\<bar> \<le> 1 / 2 ^ 52 * 6" using d1 by (rule abs_times_6)
  then have eb: "\<bar>(dl - (q - p)) * 6 * t\<bar> \<le> 1 / 2 ^ 52 * 6" using t(1,2) by (rule abs_scaled)
  have "w - (q - p) * (6 * t) = (w - Y * t) + (Y - dl * 6) * t + (dl - (q - p)) * 6 * t"
    by (simp add: algebra_simps)
  then have "\<bar>w - (q - p) * (6 * t)\<bar> \<le> 1 / 2 ^ 50 + 1 / 2 ^ 50 + 1 / 2 ^ 52 * 6"
    using three_errors [OF w1 ea eb] by (simp only:)
  then have we: "\<bar>w - (q - p) * (6 * t)\<bar> \<le> 1 / 2 ^ 48" by simp
  have "\<bar>(q - p) * (6 * t)\<bar> \<le> 9 / 8"
  proof (rule abs_scaled)
    show "\<bar>q - p\<bar> \<le> 9 / 8" using c by linarith
  qed (use t in simp_all)
  moreover have "\<bar>w - (q - p) * (6 * t)\<bar> \<le> 1 / 8" using we by simp
  ultimately have "\<bar>w\<bar> \<le> 5 / 4" by linarith
  with c have "\<bar>p + w\<bar> \<le> 4" by linarith
  then have "\<bar>p + w\<bar> \<le> 2 powi 2" by simp
  from rd_error [OF this] have r1: "\<bar>R - (p + w)\<bar> \<le> 1 / 2 ^ 51" by (simp add: R_def)
  note b = interp_bound [OF assms(1-4) t(3,4) we r1]
  have "- (1 / 2 ^ 46) \<le> R" using b(1) by simp
  moreover have "R \<le> 1 + 1 / 2 ^ 46" using b(2) by simp
  ultimately show "- (1 / 2 ^ 46) \<le> rd (p + rd (rd (rd (q - p) * 6) * t))"
    and "rd (p + rd (rd (rd (q - p) * 6) * t)) \<le> 1 + 1 / 2 ^ 46"
    by (simp_all add: R_def w_def Y_def dl_def)
qed

text \<open>The second: \<open>p + (q - p) * (2 / 3 - t) * 6\<close> for \<open>1 / 2 \<le> t < 2 / 3\<close>.\<close>

lemma falling_edge:
  fixes p q t :: real
  assumes "- (1 / 2 ^ 48) \<le> p" "p \<le> 1 + 1 / 2 ^ 48" "- (1 / 2 ^ 48) \<le> q" "q \<le> 1 + 1 / 2 ^ 48"
    and "1 / 2 \<le> t" "t < rd (2 / 3)"
  shows "- (1 / 2 ^ 46) \<le> rd (p + rd (rd (rd (q - p) * rd (rd (2 / 3) - t)) * 6))"
    and "rd (p + rd (rd (rd (q - p) * rd (rd (2 / 3) - t)) * 6)) \<le> 1 + 1 / 2 ^ 46"
proof -
  define dl where "dl = rd (q - p)"
  define W where "W = rd (rd (2 / 3) - t)"
  define Z where "Z = rd (dl * W)"
  define w where "w = rd (Z * 6)"
  define R where "R = rd (p + w)"
  have "0 \<le> rd (2 / 3) - t" "rd (2 / 3) - t \<le> 1 / 6"
    using assms(5,6) by (simp_all add: rd_two_thirds_val)
  then have "0 \<le> W" "W \<le> rd (1 / 6)"
    unfolding W_def by (simp_all add: rd_nonneg rd_mono)
  then have W: "0 \<le> W" "W \<le> 1" "0 \<le> 6 * W" "6 * W \<le> 1"
    by (simp_all add: rd_sixth_val)
  have c: "- (1 / 16) \<le> p" "p \<le> 17 / 16" "- (1 / 16) \<le> q" "q \<le> 17 / 16"
    using assms(1-4) by simp_all
  have d1: "\<bar>dl - (q - p)\<bar> \<le> 1 / 2 ^ 52" and d2: "\<bar>dl\<bar> \<le> 5 / 4"
    unfolding dl_def by (rule delta_bound [OF assms(1-4)])+
  have "\<bar>dl * W\<bar> \<le> 5 / 4" using d2 W(1,2) by (rule abs_scaled)
  then have "\<bar>dl * W\<bar> \<le> 2 powi 1" by simp
  from rd_error [OF this] have z1: "\<bar>Z - dl * W\<bar> \<le> 1 / 2 ^ 52" by (simp add: Z_def)
  have "\<bar>(q - p) * (6 * W)\<bar> \<le> 9 / 8"
  proof (rule abs_scaled)
    show "\<bar>q - p\<bar> \<le> 9 / 8" using c by linarith
  qed (use W in simp_all)
  have eb: "\<bar>(dl - (q - p)) * W\<bar> \<le> 1 / 2 ^ 52" using d1 W(1,2) by (rule abs_scaled)
  have "Z - (q - p) * W = (Z - dl * W) + (dl - (q - p)) * W" by (simp add: algebra_simps)
  then have z2: "\<bar>Z - (q - p) * W\<bar> \<le> 1 / 2 ^ 52 + 1 / 2 ^ 52"
    using z1 eb by linarith
  have "\<bar>(q - p) * W\<bar> \<le> 9 / 8"
  proof (rule abs_scaled)
    show "\<bar>q - p\<bar> \<le> 9 / 8" using c by linarith
  qed (use W in simp_all)
  moreover have "\<bar>Z - (q - p) * W\<bar> \<le> 1 / 8" using z2 by simp
  ultimately have "\<bar>Z\<bar> \<le> 5 / 4" by linarith
  then have "\<bar>Z * 6\<bar> \<le> 2 powi 3" by simp
  from rd_error [OF this] have w1: "\<bar>w - Z * 6\<bar> \<le> 1 / 2 ^ 50" by (simp add: w_def)
  have "\<bar>(Z - (q - p) * W) * 6\<bar> \<le> (1 / 2 ^ 52 + 1 / 2 ^ 52) * 6" using z2 by (rule abs_times_6)
  moreover have "w - (q - p) * (6 * W) = (w - Z * 6) + (Z - (q - p) * W) * 6"
    by (simp add: algebra_simps)
  ultimately have "\<bar>w - (q - p) * (6 * W)\<bar> \<le> 1 / 2 ^ 50 + (1 / 2 ^ 52 + 1 / 2 ^ 52) * 6"
    using w1 by linarith
  then have we: "\<bar>w - (q - p) * (6 * W)\<bar> \<le> 1 / 2 ^ 48" by simp
  have "\<bar>w - (q - p) * (6 * W)\<bar> \<le> 1 / 8" using we by simp
  with \<open>\<bar>(q - p) * (6 * W)\<bar> \<le> 9 / 8\<close> have "\<bar>w\<bar> \<le> 5 / 4" by linarith
  with c have "\<bar>p + w\<bar> \<le> 4" by linarith
  then have "\<bar>p + w\<bar> \<le> 2 powi 2" by simp
  from rd_error [OF this] have r1: "\<bar>R - (p + w)\<bar> \<le> 1 / 2 ^ 51" by (simp add: R_def)
  note b = interp_bound [OF assms(1-4) W(3,4) we r1]
  have "- (1 / 2 ^ 46) \<le> R" using b(1) by simp
  moreover have "R \<le> 1 + 1 / 2 ^ 46" using b(2) by simp
  ultimately show "- (1 / 2 ^ 46) \<le> rd (p + rd (rd (rd (q - p) * rd (rd (2 / 3) - t)) * 6))"
    and "rd (p + rd (rd (rd (q - p) * rd (rd (2 / 3) - t)) * 6)) \<le> 1 + 1 / 2 ^ 46"
    by (simp_all add: R_def w_def Z_def W_def dl_def)
qed

lemma hue2rgb_range:
  assumes "- (1 / 2 ^ 48) \<le> p" "p \<le> 1 + 1 / 2 ^ 48" "- (1 / 2 ^ 48) \<le> q" "q \<le> 1 + 1 / 2 ^ 48"
    and "- 1 \<le> t0" "t0 \<le> 2"
  shows "- (1 / 2 ^ 46) \<le> hue2rgb p q t0 \<and> hue2rgb p q t0 \<le> 1 + 1 / 2 ^ 46"
proof -
  define t1 where "t1 = (if t0 < 0 then rd (t0 + 1) else t0)"
  define t where "t = (if t1 > 1 then rd (t1 - 1) else t1)"
  have t1: "0 \<le> t1" "t1 \<le> 2"
    using assms(5,6) rd_unit [of "t0 + 1"] by (auto simp: t1_def)
  have t: "0 \<le> t" "t \<le> 1"
    using t1 rd_unit [of "t1 - 1"] by (auto simp: t_def)
  have val: "hue2rgb p q t0 =
        (if t < rd (1 / 6) then rd (p + rd (rd (rd (q - p) * 6) * t))
         else if t < 1 / 2 then q
         else if t < rd (2 / 3) then rd (p + rd (rd (rd (q - p) * rd (rd (2 / 3) - t)) * 6))
         else p)"
    by (simp add: hue2rgb_def Let_def t1_def t_def)
  have pq: "- (1 / 2 ^ 46) \<le> p" "p \<le> 1 + 1 / 2 ^ 46" "- (1 / 2 ^ 46) \<le> q" "q \<le> 1 + 1 / 2 ^ 46"
    using assms(1-4) by simp_all
  consider (a) "t < rd (1 / 6)" | (b) "\<not> t < rd (1 / 6)" "t < 1 / 2"
    | (c) "\<not> t < rd (1 / 6)" "\<not> t < 1 / 2" "t < rd (2 / 3)"
    | (d) "\<not> t < rd (1 / 6)" "\<not> t < 1 / 2" "\<not> t < rd (2 / 3)" by blast
  then show ?thesis
  proof cases
    case a
    with rising_edge [OF assms(1-4) t(1) a] show ?thesis by (simp only: val if_True simp_thms)
  next
    case b
    with pq show ?thesis by (simp only: val if_True if_False simp_thms)
  next
    case c
    then have "1 / 2 \<le> t" by simp
    from falling_edge [OF assms(1-4) this c(3)] c show ?thesis
      by (simp only: val if_True if_False simp_thms)
  next
    case d
    with pq show ?thesis by (simp only: val if_True if_False simp_thms)
  qed
qed

lemma channel_range:
  fixes R :: real
  assumes "- (1 / 2 ^ 46) \<le> R" "R \<le> 1 + 1 / 2 ^ 46"
  shows "0 \<le> mathRound (rd (R * 255)) \<and> mathRound (rd (R * 255)) \<le> 255"
proof -
  have c: "- (1 / 2048) \<le> R * 255" "R * 255 \<le> 255 + 1 / 2048" using assms by simp_all
  then have "\<bar>R * 255\<bar> \<le> 256" by linarith
  then have "\<bar>R * 255\<bar> \<le> 2 powi 8" by simp
  from rd_error [OF this] have "\<bar>rd (R * 255) - R * 255\<bar> \<le> 1 / 2 ^ 45" by simp
  then have "\<bar>rd (R * 255) - R * 255\<bar> \<le> 1 / 2048" by simp
  with c have x: "- (1 / 4) \<le> rd (R * 255)" "rd (R * 255) \<le> 255 + 1 / 4" by linarith+
  then have "0 \<le> rd (R * 255) + 1 / 2" "rd (R * 255) + 1 / 2 < 256" by linarith+
  then have "0 \<le> \<lfloor>rd (R * 255) + 1 / 2\<rfloor>" "\<lfloor>rd (R * 255) + 1 / 2\<rfloor> < 256"
    by (simp_all add: floor_less_iff)
  then show ?thesis by (simp add: mathRound_def)
qed

text \<open>The two auxiliary values \<open>q\<close> and \<open>p\<close> of \<open>hslToRgb\<close>.\<close>

lemma pq_dark:
  fixes l s :: real
  assumes "0 \<le> s" "s \<le> 1" "0 \<le> l" "l < 1 / 2"
  defines "q \<equiv> rd (l * rd (1 + s))"
  defines "p \<equiv> rd (rd (2 * l) - q)"
  shows "0 \<le> q \<and> q \<le> 1 \<and> 0 \<le> p \<and> p \<le> 1"
proof -
  have w: "1 \<le> rd (1 + s)" "rd (1 + s) \<le> 2"
    using assms(1,2) rd_ge_fixed [of 1 "1 + s"] rd_le_fixed [of "1 + s" 2] by (simp_all add: rd_1 rd_2)
  have "l * rd (1 + s) \<le> l * 2" using w(2) assms(3) by (rule mult_left_mono)
  then have prod: "0 \<le> l * rd (1 + s)" "l * rd (1 + s) \<le> 2 * l" "l * rd (1 + s) \<le> 1"
    using assms(3,4) w(1) by simp_all
  have q: "0 \<le> q" "q \<le> 1" unfolding q_def using prod rd_unit by simp_all
  have "q \<le> rd (2 * l)" unfolding q_def using prod(2) by (rule rd_mono)
  moreover have "rd (2 * l) \<le> 1" using assms(4) by (intro rd_le_1) simp
  ultimately have "0 \<le> rd (2 * l) - q" "rd (2 * l) - q \<le> 1" using q by simp_all
  then have "0 \<le> p \<and> p \<le> 1" unfolding p_def by (rule rd_unit)
  with q show ?thesis by simp
qed

lemma pq_light:
  fixes l s :: real
  assumes "0 \<le> s" "s \<le> 1" "1 / 2 \<le> l" "l \<le> 1"
  defines "q \<equiv> rd (rd (l + s) - rd (l * s))"
  defines "p \<equiv> rd (rd (2 * l) - q)"
  shows "- (1 / 2 ^ 48) \<le> q \<and> q \<le> 1 + 1 / 2 ^ 48 \<and> - (1 / 2 ^ 48) \<le> p \<and> p \<le> 1 + 1 / 2 ^ 48"
proof -
  define A where "A = rd (l + s)"
  define B where "B = rd (l * s)"
  define T where "T = rd (2 * l)"
  define E where "E = l + s - l * s"
  have ls: "0 \<le> l * s" "l * s \<le> 1"
    using assms(1-4) by (simp_all add: mult_le_one)
  have "0 \<le> s * (1 - l)" "0 \<le> (1 - l) * (1 - s)" using assms(1-4) by simp_all
  then have E: "l \<le> E" "E \<le> 1" by (simp_all add: E_def algebra_simps)
  have "\<bar>l + s\<bar> \<le> 2 powi 1" using assms(1-4) by simp
  from rd_error [OF this] have a: "\<bar>A - (l + s)\<bar> \<le> 1 / 2 ^ 52" by (simp add: A_def)
  have "\<bar>l * s\<bar> \<le> 2 powi 0" using ls by simp
  from rd_error [OF this] have b: "\<bar>B - l * s\<bar> \<le> 1 / 2 ^ 53" by (simp add: B_def)
  have a': "\<bar>A - (l + s)\<bar> \<le> 1 / 8" using a by simp
  have b': "\<bar>B - l * s\<bar> \<le> 1 / 8" using b by simp
  have "\<bar>A - B\<bar> \<le> 4" using a' b' ls assms(1-4) by linarith
  then have "\<bar>A - B\<bar> \<le> 2 powi 2" by simp
  from rd_error [OF this] have q1: "\<bar>q - (A - B)\<bar> \<le> 1 / 2 ^ 51" by (simp add: q_def A_def B_def)
  have "A - B - E = (A - (l + s)) - (B - l * s)" by (simp add: E_def)
  then have "\<bar>A - B - E\<bar> \<le> 1 / 2 ^ 52 + 1 / 2 ^ 53" using a b by linarith
  with q1 have "\<bar>q - E\<bar> \<le> 1 / 2 ^ 51 + (1 / 2 ^ 52 + 1 / 2 ^ 53)" by (rule abs_chain)
  then have qe: "\<bar>q - E\<bar> \<le> 1 / 2 ^ 50" by simp
  have "\<bar>2 * l\<bar> \<le> 2 powi 1" using assms(3,4) by simp
  from rd_error [OF this] have t: "\<bar>T - 2 * l\<bar> \<le> 1 / 2 ^ 52" by (simp add: T_def)
  have t': "\<bar>T - 2 * l\<bar> \<le> 1 / 8" using t by simp
  have qe': "\<bar>q - E\<bar> \<le> 1 / 8" using qe by simp
  have "\<bar>T - q\<bar> \<le> 4" using t' qe' E assms(3,4) by linarith
  then have "\<bar>T - q\<bar> \<le> 2 powi 2" by simp
  from rd_error [OF this] have p1: "\<bar>p - (T - q)\<bar> \<le> 1 / 2 ^ 51" by (simp add: p_def T_def)
  have "T - q - (2 * l - E) = (T - 2 * l) - (q - E)" by simp
  then have "\<bar>T - q - (2 * l - E)\<bar> \<le> 1 / 2 ^ 52 + 1 / 2 ^ 50" using t qe by linarith
  with p1 have "\<bar>p - (2 * l - E)\<bar> \<le> 1 / 2 ^ 51 + (1 / 2 ^ 52 + 1 / 2 ^ 50)" by (rule abs_chain)
  then have pe: "\<bar>p - (2 * l - E)\<bar> \<le> 1 / 2 ^ 48" by simp
  have qe2: "\<bar>q - E\<bar> \<le> 1 / 2 ^ 48" using qe by simp
  have "- (1 / 2 ^ 48) \<le> q" "q \<le> 1 + 1 / 2 ^ 48" using qe2 E assms(3,4) by linarith+
  moreover have "- (1 / 2 ^ 48) \<le> p" "p \<le> 1 + 1 / 2 ^ 48" using pe E assms(3,4) by linarith+
  ultimately show ?thesis by simp
qed

lemma hslToRgb_range:
  assumes "0 \<le> h" "h \<le> 1" "0 \<le> s" "s \<le> 1" "0 \<le> l" "l \<le> 1"
    and "hslToRgb h s l = (nr, ng, nb)"
  shows "0 \<le> nr \<and> nr \<le> 255 \<and> 0 \<le> ng \<and> ng \<le> 255 \<and> 0 \<le> nb \<and> nb \<le> 255"
proof (cases "s = 0")
  case True
  with assms(7) have "nr = mathRound (rd (l * 255))" "ng = mathRound (rd (l * 255))"
    "nb = mathRound (rd (l * 255))"
    by (simp_all add: hslToRgb_def)
  moreover have "0 \<le> mathRound (rd (l * 255)) \<and> mathRound (rd (l * 255)) \<le> 255"
    using assms(5,6) by (intro channel_range) simp_all
  ultimately show ?thesis by simp
next
  case False
  define q where "q = (if l < 1 / 2 then rd (l * rd (1 + s)) else rd (rd (l + s) - rd (l * s)))"
  define p where "p = rd (rd (2 * l) - q)"
  have pq: "- (1 / 2 ^ 48) \<le> p" "p \<le> 1 + 1 / 2 ^ 48" "- (1 / 2 ^ 48) \<le> q" "q \<le> 1 + 1 / 2 ^ 48"
  proof -
    have "- (1 / 2 ^ 48) \<le> q \<and> q \<le> 1 + 1 / 2 ^ 48 \<and> - (1 / 2 ^ 48) \<le> p \<and> p \<le> 1 + 1 / 2 ^ 48"
    proof (cases "l < 1 / 2")
      case True
      from pq_dark [OF assms(3,4,5) True] have "0 \<le> q \<and> q \<le> 1 \<and> 0 \<le> p \<and> p \<le> 1"
        using True by (simp add: q_def p_def)
      then show ?thesis by simp
    next
      case False
      then have "1 / 2 \<le> l" by simp
      from pq_light [OF assms(3,4) this assms(6)] False show ?thesis
        by (simp add: q_def p_def)
    qed
    then show "- (1 / 2 ^ 48) \<le> p" "p \<le> 1 + 1 / 2 ^ 48" "- (1 / 2 ^ 48) \<le> q" "q \<le> 1 + 1 / 2 ^ 48"
      by simp_all
  qed
  have third: "0 \<le> rd (1 / 3)" "rd (1 / 3) \<le> 1 / 3" by (simp_all add: rd_third_val)
  have up: "- 1 \<le> rd (h + rd (1 / 3))" "rd (h + rd (1 / 3)) \<le> 2"
    using assms(1,2) third rd_nonneg [of "h + rd (1 / 3)"] rd_le_fixed [of "h + rd (1 / 3)" 2]
    by (simp_all add: rd_2)
  have down: "- 1 \<le> rd (h - rd (1 / 3))" "rd (h - rd (1 / 3)) \<le> 2"
    using assms(1,2) third rd_ge_fixed [of "- 1" "h - rd (1 / 3)"] rd_le_1 [of "h - rd (1 / 3)"]
    by (simp_all add: rd_neg_1)
  have mid: "- 1 \<le> h" "h \<le> 2" using assms(1,2) by simp_all
  have out: "nr = mathRound (rd (hue2rgb p q (rd (h + rd (1 / 3))) * 255))"
    "ng = mathRound (rd (hue2rgb p q h * 255))"
    "nb = mathRound (rd (hue2rgb p q (rd (h - rd (1 / 3))) * 255))"
    using assms(7) False by (simp_all add: hslToRgb_def Let_def p_def q_def)
  have "0 \<le> nr \<and> nr \<le> 255"
    unfolding out using hue2rgb_range [OF pq up] by (intro channel_range) simp_all
  moreover have "0 \<le> ng \<and> ng \<le> 255"
    unfolding out using hue2rgb_range [OF pq mid] by (intro channel_range) simp_all
  moreover have "0 \<le> nb \<and> nb \<le> 255"
    unfolding out using hue2rgb_range [OF pq down] by (intro channel_range) simp_all
  ultimately show ?thesis by simp
qed

text \<open>Blue has the hue \<open>rd (4 / 6)\<close>, the double below 2/3.\<close>

lemma rgbToHsl_blue: "rgbToHsl 0 0 255 = (6004799503160661 / 2 ^ 53, 1, 1 / 2)"
  by (simp add: rgbToHsl_def Let_def rd_0 rd_1 rd_numeral rd_half rd_two_thirds_val)

lemma rgbToHsl_red: "rgbToHsl 255 0 0 = (0, 1, 1 / 2)"
  by (simp add: rgbToHsl_def Let_def rd_0 rd_1 rd_numeral rd_half)

text \<open>
  For the red channel the hue plus \<open>rd (1 / 3)\<close> is \<open>1 - 2^-54\<close>, a tie that rounds
  to 1; for the blue channel the hue minus \<open>rd (1 / 3)\<close> is \<open>rd (1 / 3)\<close> exactly.
\<close>

lemma hue_plus_third: "rd (6004799503160661 / 2 ^ 53 + rd (1 / 3)) = 1"
  using rd_pos_eval [of "- 1" "6004799503160661 / 2 ^ 53 + 6004799503160661 / 2 ^ 54"]
  by (simp add: rd_third_val roundHalfEven_def)

lemma hue_minus_third: "rd (6004799503160661 / 2 ^ 53 - rd (1 / 3)) = 6004799503160661 / 2 ^ 54"
  using rd_repr [of 6004799503160661 "- 54"] by (simp add: rd_third_val)

lemma hslToRgb_blue: "hslToRgb (6004799503160661 / 2 ^ 53) 1 (1 / 2) = (0, 0, 255)"
proof -
  have q: "rd (3 / 2) = 3 / 2" using rd_repr [of 3 "- 1"] by simp
  have r: "hue2rgb 0 1 1 = 0"
    by (simp add: hue2rgb_def Let_def rd_sixth_val rd_two_thirds_val)
  have g: "hue2rgb 0 1 (6004799503160661 / 9007199254740992) = 0"
    by (simp add: hue2rgb_def Let_def rd_sixth_val rd_two_thirds_val)
  have b: "hue2rgb 0 1 (6004799503160661 / 18014398509481984) = 1"
    by (simp add: hue2rgb_def Let_def rd_sixth_val rd_two_thirds_val)
  show ?thesis
    unfolding hslToRgb_def Let_def hue_plus_third hue_minus_third
    by (simp add: q rd_half rd_1 r g b rd_0 rd_numeral mathRound_def)
qed

lemma processPair_redToBlue:
  "processPair \<lparr>original = ''#FF0000'', target = ''#0000FF''\<rparr>
     = \<lparr>originalRGB = \<lparr>rgb_r = 255, rgb_g = 0, rgb_b = 0\<rparr>,
        targetHSL = (6004799503160661 / 2 ^ 53, 1, 1 / 2)\<rparr>"
  by (simp add: processPair_def hexToRgb_red hexToRgb_blue rgbToHsl_blue)

lemma recolorPixel_red:
  "recolorPixel [processPair \<lparr>original = ''#FF0000'', target = ''#0000FF''\<rparr>] (255, 0, 0, 255)
     = (0, 0, 255, 255)"
proof -
  have "findBestMatch [processPair \<lparr>original = ''#FF0000'', target = ''#0000FF''\<rparr>]
      \<lparr>rgb_r = byteVal 255, rgb_g = byteVal 0, rgb_b = byteVal 0\<rparr>
      = Some (processPair \<lparr>original = ''#FF0000'', target = ''#0000FF''\<rparr>)"
    by (simp add: processPair_redToBlue findBestMatch_def threshold_def byteVal_def
        colorDistance_self)
  moreover have "rgbToHsl (of_int (byteVal 255)) (of_int (byteVal 0)) (of_int (byteVal 0))
      = (0, 1, 1 / 2)"
    using rgbToHsl_red by (simp add: byteVal_def)
  moreover have "10 \<le> byteVal (255 :: byte)" by (simp add: byteVal_def)
  ultimately show ?thesis
    using hslToRgb_blue
    by (simp add: recolorPixel_def processPair_redToBlue toUint8Clamp_def)
qed

lemma recolorPass_redToBlue:
  "recolorPass [Recolor] redToBlue d
     = forEachPixel (recolorPixel [processPair \<lparr>original = ''#FF0000'', target = ''#0000FF''\<rparr>]) d"
  by (simp add: recolorPass_def redToBlue_def)

lemma solid_red_frame:
  "recolorPass [Recolor] redToBlue (concat (replicate n [255, 0, 0, 255]))
     = concat (replicate n [0, 0, 255, 255])"
  unfolding recolorPass_redToBlue
  by (induction n) (simp_all add: recolorPixel_red)

lemma scanPairs_mem:
  "scanPairs ps cur (best, m) = (Some x, m') \<Longrightarrow> x \<in> set ps \<or> best = Some x"
  by (induction ps arbitrary: best m) (auto simp: Let_def split: if_splits)

lemma findBestMatch_mem: "findBestMatch ps cur = Some x \<Longrightarrow> x \<in> set ps"
  unfolding findBestMatch_def
  using scanPairs_mem [of ps cur None threshold x "snd (scanPairs ps cur (None, threshold))"]
  by (cases "scanPairs ps cur (None, threshold)") auto

lemma processPair_target_range:
  assumes "targetHSL (processPair p) = (tH, tS, tL)"
  shows "0 \<le> tH \<and> tH \<le> 1 \<and> 0 \<le> tS \<and> tS \<le> 1"
proof -
  define c where "c = (case hexToRgb (target p) of Some c \<Rightarrow> c | None \<Rightarrow> black)"
  have c: "0 \<le> rgb_r c \<and> rgb_r c \<le> 255 \<and> 0 \<le> rgb_g c \<and> rgb_g c \<le> 255
           \<and> 0 \<le> rgb_b c \<and> rgb_b c \<le> 255"
  proof (cases "hexToRgb (target p)")
    case None
    then show ?thesis by (simp add: c_def black_def)
  next
    case (Some x)
    then show ?thesis using hexToRgb_range [of "target p" x] by (simp add: c_def)
  qed
  have "rgbToHsl (of_int (rgb_r c)) (of_int (rgb_g c)) (of_int (rgb_b c)) = (tH, tS, tL)"
    using assms by (simp add: processPair_def Let_def c_def)
  from rgbToHsl_range [OF _ _ _ _ _ _ this] c show ?thesis by simp
qed

lemma lightness_range:
  assumes "rgbToHsl (of_int (byteVal r)) (of_int (byteVal g)) (of_int (byteVal b)) = (cH, cS, cL)"
  shows "0 \<le> cL \<and> cL \<le> 1"
  using rgbToHsl_range [OF _ _ _ _ _ _ assms] byteVal_range [of r] byteVal_range [of g]
    byteVal_range [of b] by simp

text \<open>
  Claim C2.  A pixel with alpha at least 10 for which the scan finds a rule is rewritten
  to \<open>hslToRgb (tH, tS, cL)\<close>, the hue and saturation of the rule's target with the
  pixel's own lightness, all in double arithmetic; the three numbers lie in 0..255, so the
  bytes stored are exactly these numbers, and the alpha is unchanged.  With the single
  rule red to blue a fully opaque pure red pixel becomes pure blue (0,0,255), and so does
  every pixel of a solid red frame of any size.
\<close>

theorem recolor_matched_pixel:
  assumes "recolorPairs config = Some ps" and "ps \<noteq> []" and "Recolor \<in> set modes"
    and "4 * i + 3 < length d" and "pixelAt d i = (r, g, b, a)" and "10 \<le> byteVal a"
    and "findBestMatch (map processPair ps)
           \<lparr>rgb_r = byteVal r, rgb_g = byteVal g, rgb_b = byteVal b\<rparr> = Some rule"
    and "targetHSL rule = (tH, tS, tL)"
    and "rgbToHsl (of_int (byteVal r)) (of_int (byteVal g)) (of_int (byteVal b)) = (cH, cS, cL)"
    and "hslToRgb tH tS cL = (nr, ng, nb)"
  shows "pixelAt (recolorPass modes config d) i = (of_int nr, of_int ng, of_int nb, a)
       \<and> byteVal (of_int nr) = nr \<and> byteVal (of_int ng) = ng \<and> byteVal (of_int nb) = nb
       \<and> recolorPass [Recolor] redToBlue [255, 0, 0, 255] = [0, 0, 255, 255]
       \<and> (\<forall>n. recolorPass [Recolor] redToBlue (concat (replicate n [255, 0, 0, 255]))
                = concat (replicate n [0, 0, 255, 255]))"
proof -
  have pass: "recolorPass modes config d = forEachPixel (recolorPixel (map processPair ps)) d"
    using assms(1-3) by (simp add: recolorPass_def)
  have at: "pixelAt (recolorPass modes config d) i = recolorPixel (map processPair ps) (r, g, b, a)"
    using pixelAt_forEachPixel [OF assms(4)] assms(5) by (simp add: pass)
  from findBestMatch_mem [OF assms(7)] obtain p where "rule = processPair p" by auto
  with assms(8) have t: "0 \<le> tH \<and> tH \<le> 1 \<and> 0 \<le> tS \<and> tS \<le> 1"
    using processPair_target_range by simp
  from lightness_range [OF assms(9)] have l: "0 \<le> cL \<and> cL \<le> 1" .
  from hslToRgb_range [OF _ _ _ _ _ _ assms(10)] t l
  have n: "0 \<le> nr" "nr \<le> 255" "0 \<le> ng" "ng \<le> 255" "0 \<le> nb" "nb \<le> 255" by simp_all
  have "recolorPixel (map processPair ps) (r, g, b, a)
      = (toUint8Clamp (of_int nr), toUint8Clamp (of_int ng), toUint8Clamp (of_int nb), a)"
    using assms(6-10) by (simp add: recolorPixel_def)
  with n have px: "pixelAt (recolorPass modes config d) i = (of_int nr, of_int ng, of_int nb, a)"
    by (simp add: at toUint8Clamp_of_int_word)
  have one: "recolorPass [Recolor] redToBlue [255, 0, 0, 255] = [0, 0, 255, 255]"
    using solid_red_frame [of 1] by simp
  from px n one solid_red_frame show ?thesis by (simp add: byteVal_of_int)
qed

lemma hexToRgb_black: "hexToRgb ''#000000'' = Some \<lparr>rgb_r = 0, rgb_g = 0, rgb_b = 0\<rparr>"
  by (simp add: hexToRgb_def parseHexPair_def hexDigit_def)

lemma hexToRgb_white: "hexToRgb ''#FFFFFF'' = Some \<lparr>rgb_r = 255, rgb_g = 255, rgb_b = 255\<rparr>"
  by (simp add: hexToRgb_def parseHexPair_def hexDigit_def)

lemma processPair_blackToWhite:
  "processPair \<lparr>original = ''#000000'', target = ''#FFFFFF''\<rparr>
     = \<lparr>originalRGB = \<lparr>rgb_r = 0, rgb_g = 0, rgb_b = 0\<rparr>, targetHSL = (0, 0, 1)\<rparr>"
  by (simp add: processPair_def hexToRgb_black hexToRgb_white rgbToHsl_def Let_def rd_1 rd_numeral)

text \<open>
  The lightness of (17,16,16): the channels round to doubles, their sum is a tie that
  goes to the even neighbour, and 255 times the lightness rounds to a double below 16.5.
\<close>

lemma rd_17_255: "rd (17 / 255) = 4803839602528529 / 72057594037927936"
  using rd_pos_eval [of "- 4" "17 / 255"] by (simp add: roundHalfEven_def)

lemma rd_1_15: "rd (1 / 15) = 4803839602528529 / 72057594037927936"
  using rd_17_255 by simp

lemma rd_16_255: "rd (16 / 255) = 282578800148737 / 4503599627370496"
  using rd_pos_eval [of "- 4" "16 / 255"] by (simp add: roundHalfEven_def)

lemma rd_sum_17_16:
  "rd (4803839602528529 / 72057594037927936 + 282578800148737 / 4503599627370496)
     = 291409387653385 / 2251799813685248"
  using rd_pos_eval [of "- 3" "4803839602528529 / 72057594037927936 + 282578800148737 / 4503599627370496"]
  by (simp add: roundHalfEven_def)

lemma rd_half_sum: "rd (291409387653385 / 2251799813685248 / 2) = 291409387653385 / 4503599627370496"
  using rd_repr [of 291409387653385 "- 52"] by simp

lemma lightness_17_16_16:
  "snd (snd (rgbToHsl 17 16 16)) = 291409387653385 / 4503599627370496"
proof -
  have mx: "max (max (rd (17 / 255)) (rd (16 / 255))) (rd (16 / 255)) = rd (17 / 255)"
    and mn: "min (min (rd (17 / 255)) (rd (16 / 255))) (rd (16 / 255)) = rd (16 / 255)"
    and ne: "rd (17 / 255) \<noteq> rd (16 / 255)"
    by (simp_all add: rd_1_15 rd_16_255)
  have "snd (snd (rgbToHsl 17 16 16)) = rd (rd (rd (17 / 255) + rd (16 / 255)) / 2)"
    unfolding rgbToHsl_def Let_def mx mn using ne by simp
  also have "\<dots> = 291409387653385 / 4503599627370496"
    unfolding rd_17_255 rd_16_255 rd_sum_17_16 rd_half_sum ..
  finally show ?thesis .
qed

lemma channel_17_16_16:
  "mathRound (rd (291409387653385 / 4503599627370496 * 255)) = 16"
proof -
  have "rd (291409387653385 / 4503599627370496 * 255) = 4644337115725823 / 281474976710656"
    using rd_pos_eval [of 4 "291409387653385 / 4503599627370496 * 255"]
    by (simp add: roundHalfEven_def)
  then show ?thesis by (simp only: mathRound_def) simp
qed

text \<open>
  With the rule black to white the pixel (17,16,16) is matched; white has saturation 0,
  so each channel is the rounded 255-fold of the pixel's lightness, a double just below
  16.5: the pixel becomes (16,16,16).
\<close>

theorem recolor_matched_pixel_witness:
  "pixelAt (recolorPass [Recolor] blackToWhite [17, 16, 16, 255]) 0 = (16, 16, 16, 255)"
proof -
  let ?d = "[17, 16, 16, 255] :: byte list"
  let ?ps = "[\<lparr>original = ''#000000'', target = ''#FFFFFF''\<rparr>]"
  let ?rule = "\<lparr>originalRGB = \<lparr>rgb_r = 0, rgb_g = 0, rgb_b = 0\<rparr>, targetHSL = (0, 0, 1 :: real)\<rparr>"
  let ?l = "291409387653385 / 4503599627370496 :: real"
  have cfg: "recolorPairs blackToWhite = Some ?ps" "?ps \<noteq> []" "Recolor \<in> set [Recolor]"
    by (simp_all add: blackToWhite_def)
  have px: "4 * 0 + 3 < length ?d" "pixelAt ?d 0 = (17, 16, 16, 255)" "10 \<le> byteVal (255 :: byte)"
    by (simp_all add: pixelAt_def byteVal_def)
  have best: "findBestMatch (map processPair ?ps)
           \<lparr>rgb_r = byteVal 17, rgb_g = byteVal 16, rgb_b = byteVal 16\<rparr> = Some ?rule"
    by (simp add: processPair_blackToWhite findBestMatch_def threshold_def byteVal_def
        colorDistance_less_iff sqDistance_def)
  have t: "targetHSL ?rule = (0, 0, 1)" by simp
  have "snd (snd (rgbToHsl (of_int (byteVal 17)) (of_int (byteVal 16)) (of_int (byteVal 16)))) = ?l"
    using lightness_17_16_16 by (simp add: byteVal_def)
  then obtain cH cS where
    c: "rgbToHsl (of_int (byteVal 17)) (of_int (byteVal 16)) (of_int (byteVal 16)) = (cH, cS, ?l)"
    by (cases "rgbToHsl (of_int (byteVal 17)) (of_int (byteVal 16)) (of_int (byteVal 16))") auto
  have n: "hslToRgb 0 0 ?l = (16, 16, 16)"
    unfolding hslToRgb_def using channel_17_16_16 by simp
  from recolor_matched_pixel [OF cfg px best t c n] show ?thesis by simp
qed

text \<open>
  Two distances of the recolor scan compare the same before and after rounding: distinct
  sums of squares up to \<open>3 * 255\<^sup>2\<close> have square roots more than \<open>1 / 1024\<close> apart, far
  more than the rounding moves them.
\<close>

lemma rd_sqrt_strict:
  fixes n m :: int
  assumes "0 \<le> n" "n < m" "m \<le> 262144"
  shows "rd (sqrt (of_int n)) < rd (sqrt (of_int m))"
proof -
  define a where "a = sqrt (real_of_int n)"
  define b where "b = sqrt (real_of_int m)"
  have a0: "0 \<le> a" unfolding a_def using assms(1) by simp
  have "real_of_int m \<le> 512\<^sup>2" using assms(3) by simp
  then have b512: "b \<le> 512" unfolding b_def by (intro real_le_lsqrt) simp_all
  have ab: "a < b" unfolding a_def b_def using assms(2) by simp
  have "a\<^sup>2 = of_int n" "b\<^sup>2 = of_int m"
    unfolding a_def b_def using assms(1,2) by simp_all
  then have "b\<^sup>2 - a\<^sup>2 = of_int (m - n)" by simp
  moreover have "1 \<le> real_of_int (m - n)" using assms(2) by simp
  ultimately have "1 \<le> (b - a) * (b + a)" by (simp add: power2_eq_square algebra_simps)
  moreover have "(b - a) * (b + a) \<le> (b - a) * 1024"
    using ab a0 b512 by (intro mult_left_mono) simp_all
  ultimately have gap: "1 / 1024 \<le> b - a" by simp
  have "\<bar>a\<bar> \<le> 2 powi 9" "\<bar>b\<bar> \<le> 2 powi 9" using a0 ab b512 by simp_all
  then have "\<bar>rd a - a\<bar> \<le> 2 powi (9 - 53)" "\<bar>rd b - b\<bar> \<le> 2 powi (9 - 53)"
    by (simp_all only: rd_error)
  then have "\<bar>rd a - a\<bar> \<le> 1 / 4096" "\<bar>rd b - b\<bar> \<le> 1 / 4096"
    by (simp_all add: power_int_minus field_simps)
  with gap have "rd a < rd b" by linarith
  then show ?thesis unfolding a_def b_def .
qed

lemma rd_distance_less_iff:
  assumes "sqDistance c1 c2 \<le> 262144" "sqDistance c3 c4 \<le> 262144"
  shows "rd (colorDistance c1 c2) < rd (colorDistance c3 c4)
         \<longleftrightarrow> colorDistance c1 c2 < colorDistance c3 c4"
proof
  assume "rd (colorDistance c1 c2) < rd (colorDistance c3 c4)"
  show "colorDistance c1 c2 < colorDistance c3 c4"
  proof (rule ccontr)
    assume "\<not> colorDistance c1 c2 < colorDistance c3 c4"
    then have "colorDistance c3 c4 \<le> colorDistance c1 c2" by simp
    then have "rd (colorDistance c3 c4) \<le> rd (colorDistance c1 c2)" by (rule rd_mono)
    with \<open>rd (colorDistance c1 c2) < rd (colorDistance c3 c4)\<close> show False by simp
  qed
next
  assume "colorDistance c1 c2 < colorDistance c3 c4"
  then have "sqDistance c1 c2 < sqDistance c3 c4" unfolding colorDistance_def by simp
  with sqDistance_nonneg [of c1 c2] assms(2)
  show "rd (colorDistance c1 c2) < rd (colorDistance c3 c4)"
    unfolding colorDistance_def by (intro rd_sqrt_strict)
qed

lemma sqDistance_bytes:
  assumes "0 \<le> rgb_r c1" "rgb_r c1 \<le> 255" "0 \<le> rgb_g c1" "rgb_g c1 \<le> 255"
    "0 \<le> rgb_b c1" "rgb_b c1 \<le> 255"
    "0 \<le> rgb_r c2" "rgb_r c2 \<le> 255" "0 \<le> rgb_g c2" "rgb_g c2 \<le> 255"
    "0 \<le> rgb_b c2" "rgb_b c2 \<le> 255"
  shows "sqDistance c1 c2 \<le> 262144"
proof -
  have sq: "x\<^sup>2 \<le> 65025" if "- 255 \<le> x" "x \<le> 255" for x :: int
  proof -
    have "\<bar>x\<bar> \<le> 255" using that by simp
    then have "\<bar>x\<bar>\<^sup>2 \<le> 255\<^sup>2" by (intro power_mono) simp_all
    then show ?thesis by simp
  qed
  have "(rgb_r c1 - rgb_r c2)\<^sup>2 \<le> 65025" "(rgb_g c1 - rgb_g c2)\<^sup>2 \<le> 65025"
    "(rgb_b c1 - rgb_b c2)\<^sup>2 \<le> 65025"
    using assms by (intro sq; simp)+
  then show ?thesis unfolding sqDistance_def by linarith
qed

end
